theory Spec2Isabelle
  imports Main "HOL-Library.Word" "HOL-Library.Monad_Syntax" "HOL-Library.Signed_Division"
begin

section \<open>Data model of \<open>bigint\<close>\<close>

text \<open>
  The class has two fields: \<open>std::vector<uint8_t> digits\<close>, least-significant digit
  first, and \<open>bool is_negative\<close>. A digit is kept as a natural number; every place
  where the source converts to \<open>uint8_t\<close> is written out as \<open>mod 256\<close>.
\<close>

record bigint =
  digits :: "nat list"
  is_negative :: bool

datatype error = InvalidFormat

text \<open>
  \<open>v[i]\<close> on a vector. Outside the vector the C++ behaviour is undefined; the model
  returns \<open>None\<close> there, and every function that indexes a vector propagates it.
\<close>

definition vec_at :: "nat list \<Rightarrow> nat \<Rightarrow> nat option" where
  "vec_at v i = (if i < length v then Some (v ! i) else None)"

definition vec_put :: "nat list \<Rightarrow> nat \<Rightarrow> nat \<Rightarrow> nat list option" where
  "vec_put v i x = (if i < length v then Some (v[i := x]) else None)"

subsection \<open>removeLeadingZeros\<close>

function pop_zeros :: "nat list \<Rightarrow> nat list" where
  "pop_zeros ds = (if 1 < length ds \<and> last ds = 0 then pop_zeros (butlast ds) else ds)"
  by pat_completeness auto
termination
  by (relation "measure length") auto

declare pop_zeros.simps [simp del]

definition removeLeadingZeros :: "bigint \<Rightarrow> bigint" where
  "removeLeadingZeros x =
     (let ds = pop_zeros (digits x) in
      if length ds = 1 \<and> ds ! 0 = 0
      then \<lparr>digits = ds, is_negative = False\<rparr>
      else \<lparr>digits = ds, is_negative = is_negative x\<rparr>)"

subsection \<open>Constructors\<close>

definition bigint_default :: bigint where
  "bigint_default = \<lparr>digits = [0], is_negative = False\<rparr>"

text \<open>
  \<open>bigint(int64_t value)\<close>. The argument is a 64-bit word read as two's complement,
  and \<open>value = -value\<close> is the negation of that word, which wraps. The loop pushes
  \<open>value % 10\<close> and divides by ten while \<open>value > 0\<close>; \<open>sdiv\<close> and \<open>smod\<close>
  are the truncating division of C++ (no overflow can occur in it, the value being
  positive there). The constructor assigns \<open>is_negative\<close> only in the branch
  \<open>value < 0\<close>; otherwise the field keeps whatever its storage held, which is the
  parameter \<open>uninit\<close>.
\<close>

function int64_digits :: "int \<Rightarrow> nat list \<Rightarrow> nat list" where
  "int64_digits v ds =
     (if 0 < v then int64_digits (v sdiv 10) (ds @ [nat ((v smod 10) mod 256)]) else ds)"
  by pat_completeness auto
termination
  by (relation "measure (\<lambda>(v, ds). nat v)") (auto simp: signed_divide_int_def)

declare int64_digits.simps [simp del]

definition bigint_of_int64 :: "bool \<Rightarrow> 64 word \<Rightarrow> bigint" where
  "bigint_of_int64 uninit n =
     (let neg = (if n <s 0 then True else uninit);
          v = (if n <s 0 then - n else n);
          ds = (if v = 0 then [0] else [])
      in \<lparr>digits = int64_digits (sint v) ds, is_negative = neg\<rparr>)"

text \<open>
  \<open>bigint(const std::string &value)\<close>. \<open>std::isdigit\<close> holds of the ten characters
  \<open>0\<close> to \<open>9\<close>; the digit pushed is \<open>static_cast<uint8_t>(value[i - 1] - '0')\<close>.
  The loop runs \<open>i\<close> from \<open>value.size()\<close> down while \<open>i > start\<close> and reads
  \<open>value[i - 1]\<close>, which is inside the string.
\<close>

definition isdigit :: "char \<Rightarrow> bool" where
  "isdigit c = (48 \<le> (of_char c :: nat) \<and> (of_char c :: nat) \<le> 57)"

definition digit_of_char :: "char \<Rightarrow> nat" where
  "digit_of_char c = nat ((of_char c - 48) mod 256)"

fun string_digits :: "string \<Rightarrow> nat \<Rightarrow> nat \<Rightarrow> nat list \<Rightarrow> error + nat list" where
  "string_digits s start 0 ds = Inr ds"
| "string_digits s start (Suc i) ds =
     (if start < Suc i
      then (if \<not> isdigit (s ! i) then Inl InvalidFormat
            else string_digits s start i (ds @ [digit_of_char (s ! i)]))
      else Inr ds)"

definition bigint_of_string :: "string \<Rightarrow> error + bigint" where
  "bigint_of_string s =
     (if s = [] then Inl InvalidFormat
      else let neg = (s ! 0 = CHR ''-'');
               start = (if neg then 1 else 0)
           in case string_digits s start (length s) [] of
                Inl e \<Rightarrow> Inl e
              | Inr ds \<Rightarrow> Inr (removeLeadingZeros \<lparr>digits = ds, is_negative = neg\<rparr>))"

subsection \<open>Negation and comparison\<close>

definition operator_neg :: "bigint \<Rightarrow> bigint" where
  "operator_neg a = a\<lparr>is_negative := \<not> is_negative a\<rparr>"

definition operator_eq :: "bigint \<Rightarrow> bigint \<Rightarrow> bool" where
  "operator_eq a b = (is_negative a = is_negative b \<and> digits a = digits b)"

definition operator_ne :: "bigint \<Rightarrow> bigint \<Rightarrow> bool" where
  "operator_ne a b = (\<not> operator_eq a b)"

text \<open>
  The two loops of \<open>operator<\<close> over equally long digit vectors, from the most
  significant digit down; leaving the loop means the digits are equal and the operator
  returns false.
\<close>

fun less_nonneg_loop :: "nat list \<Rightarrow> nat list \<Rightarrow> nat \<Rightarrow> bool option" where
  "less_nonneg_loop a b 0 = Some False"
| "less_nonneg_loop a b (Suc i) =
     do { x \<leftarrow> vec_at a i;
          y \<leftarrow> vec_at b i;
          if x < y then Some True
          else if y < x then Some False
          else less_nonneg_loop a b i }"

fun less_neg_loop :: "nat list \<Rightarrow> nat list \<Rightarrow> nat \<Rightarrow> bool option" where
  "less_neg_loop a b 0 = Some False"
| "less_neg_loop a b (Suc i) =
     do { x \<leftarrow> vec_at a i;
          y \<leftarrow> vec_at b i;
          if y < x then Some True
          else if x < y then Some False
          else less_neg_loop a b i }"

definition operator_less :: "bigint \<Rightarrow> bigint \<Rightarrow> bool option" where
  "operator_less a b =
     (if is_negative a \<and> \<not> is_negative b then Some True
      else if \<not> is_negative a \<and> is_negative b then Some False
      else if length (digits a) < length (digits b) then Some True
      else if length (digits b) < length (digits a) then Some False
      else if \<not> is_negative a
           then less_nonneg_loop (digits a) (digits b) (length (digits a))
           else less_neg_loop (digits a) (digits b) (length (digits a)))"

definition operator_le :: "bigint \<Rightarrow> bigint \<Rightarrow> bool option" where
  "operator_le a b = do { l \<leftarrow> operator_less a b; Some (l \<or> operator_eq a b) }"

definition operator_gt :: "bigint \<Rightarrow> bigint \<Rightarrow> bool option" where
  "operator_gt a b = do { l \<leftarrow> operator_le a b; Some (\<not> l) }"

definition operator_ge :: "bigint \<Rightarrow> bigint \<Rightarrow> bool option" where
  "operator_ge a b = do { l \<leftarrow> operator_less a b; Some (\<not> l) }"

subsection \<open>Addition and subtraction\<close>

text \<open>
  \<open>addDigits\<close>: the first loop runs over the indices of \<open>smallerDigits\<close> and reads
  both vectors, the second over the remaining indices of \<open>largerDigits\<close>. \<open>sum\<close> and
  \<open>carry\<close> are \<open>uint8_t\<close>. The result starts as a default value with its digits
  cleared, so its sign flag is false when \<open>removeLeadingZeros\<close> runs.
\<close>

function addDigits_both :: "nat list \<Rightarrow> nat list \<Rightarrow> nat \<Rightarrow> nat \<Rightarrow> nat list \<Rightarrow> (nat \<times> nat \<times> nat list) option" where
  "addDigits_both larger smaller i carry rd =
     (if i < length smaller
      then do { l \<leftarrow> vec_at larger i;
                s \<leftarrow> vec_at smaller i;
                let sum = (l + s + carry) mod 256 in
                addDigits_both larger smaller (i + 1) (sum div 10) (rd @ [sum mod 10]) }
      else Some (i, carry, rd))"
  by pat_completeness auto
termination
  by (relation "measure (\<lambda>(larger, smaller, i, carry, rd). length smaller - i)") auto

function addDigits_rest :: "nat list \<Rightarrow> nat \<Rightarrow> nat \<Rightarrow> nat list \<Rightarrow> (nat \<times> nat list) option" where
  "addDigits_rest larger i carry rd =
     (if i < length larger
      then do { l \<leftarrow> vec_at larger i;
                let sum = (l + carry) mod 256 in
                addDigits_rest larger (i + 1) (sum div 10) (rd @ [sum mod 10]) }
      else Some (carry, rd))"
  by pat_completeness auto
termination
  by (relation "measure (\<lambda>(larger, i, carry, rd). length larger - i)") auto

declare addDigits_both.simps [simp del] addDigits_rest.simps [simp del]

definition addDigits :: "nat list \<Rightarrow> nat list \<Rightarrow> bigint option" where
  "addDigits largerDigits smallerDigits =
     do { (i, carry, rd) \<leftarrow> addDigits_both largerDigits smallerDigits 0 0 [];
          (carry', rd') \<leftarrow> addDigits_rest largerDigits i carry rd;
          let rd'' = (if carry' \<noteq> 0 then rd' @ [carry'] else rd') in
          Some (removeLeadingZeros \<lparr>digits = rd'', is_negative = False\<rparr>) }"

text \<open>
  \<open>subtractDigits\<close>: \<open>diff\<close> and \<open>borrow\<close> are \<open>int\<close>; the digit pushed is
  \<open>static_cast<uint8_t>(diff)\<close>. The caller passes \<open>result\<close> with its digits cleared
  and its sign set.
\<close>

function subtractDigits_both :: "nat list \<Rightarrow> nat list \<Rightarrow> nat \<Rightarrow> int \<Rightarrow> nat list \<Rightarrow> (nat \<times> int \<times> nat list) option" where
  "subtractDigits_both larger smaller i borrow rd =
     (if i < length smaller
      then do { l \<leftarrow> vec_at larger i;
                s \<leftarrow> vec_at smaller i;
                let diff = int l - int s - borrow in
                if diff < 0
                then subtractDigits_both larger smaller (i + 1) 1 (rd @ [nat ((diff + 10) mod 256)])
                else subtractDigits_both larger smaller (i + 1) 0 (rd @ [nat (diff mod 256)]) }
      else Some (i, borrow, rd))"
  by pat_completeness auto
termination
  by (relation "measure (\<lambda>(larger, smaller, i, borrow, rd). length smaller - i)") auto

function subtractDigits_rest :: "nat list \<Rightarrow> nat \<Rightarrow> int \<Rightarrow> nat list \<Rightarrow> nat list option" where
  "subtractDigits_rest larger i borrow rd =
     (if i < length larger
      then do { l \<leftarrow> vec_at larger i;
                let diff = int l - borrow in
                if diff < 0
                then subtractDigits_rest larger (i + 1) 1 (rd @ [nat ((diff + 10) mod 256)])
                else subtractDigits_rest larger (i + 1) 0 (rd @ [nat (diff mod 256)]) }
      else Some rd)"
  by pat_completeness auto
termination
  by (relation "measure (\<lambda>(larger, i, borrow, rd). length larger - i)") auto

declare subtractDigits_both.simps [simp del] subtractDigits_rest.simps [simp del]

definition subtractDigits :: "bigint \<Rightarrow> bigint \<Rightarrow> bigint \<Rightarrow> bigint option" where
  "subtractDigits result larger smaller =
     do { (i, borrow, rd) \<leftarrow> subtractDigits_both (digits larger) (digits smaller) 0 0 (digits result);
          rd' \<leftarrow> subtractDigits_rest (digits larger) i borrow rd;
          Some (removeLeadingZeros (result\<lparr>digits := rd'\<rparr>)) }"

definition operator_minus :: "bigint \<Rightarrow> bigint \<Rightarrow> bigint option" where
  "operator_minus a b =
     (if is_negative a = is_negative b
      then (if is_negative a
            then do { le \<leftarrow> operator_le a b;
                      if le
                      then subtractDigits \<lparr>digits = [], is_negative = True\<rparr> a b
                      else subtractDigits \<lparr>digits = [], is_negative = False\<rparr> b a }
            else do { ge \<leftarrow> operator_ge a b;
                      if ge
                      then subtractDigits \<lparr>digits = [], is_negative = is_negative a\<rparr> a b
                      else subtractDigits \<lparr>digits = [], is_negative = \<not> is_negative a\<rparr> b a })
      else do { result \<leftarrow> (if length (digits b) \<le> length (digits a)
                           then addDigits (digits a) (digits b)
                           else addDigits (digits b) (digits a));
                if is_negative a
                then Some (result\<lparr>is_negative := True\<rparr>)
                else Some (result\<lparr>is_negative := False\<rparr>) })"

definition operator_plus :: "bigint \<Rightarrow> bigint \<Rightarrow> bigint option" where
  "operator_plus a b =
     (if is_negative a = is_negative b
      then do { result \<leftarrow> (if length (digits b) \<le> length (digits a)
                           then addDigits (digits a) (digits b)
                           else addDigits (digits b) (digits a));
                Some (result\<lparr>is_negative := is_negative a\<rparr>) }
      else operator_minus a (operator_neg b))"

subsection \<open>Multiplication\<close>

text \<open>
  \<open>operator*\<close>: the buffer has \<open>digits.size() + other.digits.size()\<close> zeros;
  \<open>multi\<close> and \<open>carry\<close> are \<open>int\<close>, the digit stored is
  \<open>static_cast<uint8_t>(multi % 10)\<close>, and \<open>+= carry\<close> on a \<open>uint8_t\<close> element
  converts the sum back to \<open>uint8_t\<close>.
\<close>

function multiply_inner :: "nat list \<Rightarrow> nat \<Rightarrow> nat \<Rightarrow> nat \<Rightarrow> nat \<Rightarrow> nat list \<Rightarrow> (nat \<times> nat list) option" where
  "multiply_inner other di i j carry rd =
     (if j < length other
      then do { oj \<leftarrow> vec_at other j;
                r \<leftarrow> vec_at rd (i + j);
                let multi = di * oj + r + carry in
                do { rd' \<leftarrow> vec_put rd (i + j) ((multi mod 10) mod 256);
                     multiply_inner other di i (j + 1) (multi div 10) rd' } }
      else Some (carry, rd))"
  by pat_completeness auto
termination
  by (relation "measure (\<lambda>(other, di, i, j, carry, rd). length other - j)") auto

function multiply_outer :: "nat list \<Rightarrow> nat list \<Rightarrow> nat \<Rightarrow> nat list \<Rightarrow> nat list option" where
  "multiply_outer ds other i rd =
     (if i < length ds
      then do { di \<leftarrow> vec_at ds i;
                (carry, rd') \<leftarrow> multiply_inner other di i 0 0 rd;
                r \<leftarrow> vec_at rd' (i + length other);
                rd'' \<leftarrow> vec_put rd' (i + length other) ((r + carry) mod 256);
                multiply_outer ds other (i + 1) rd'' }
      else Some rd)"
  by pat_completeness auto
termination
  by (relation "measure (\<lambda>(ds, other, i, rd). length ds - i)") auto

declare multiply_inner.simps [simp del] multiply_outer.simps [simp del]

definition operator_times :: "bigint \<Rightarrow> bigint \<Rightarrow> bigint option" where
  "operator_times a b =
     do { rd \<leftarrow> multiply_outer (digits a) (digits b) 0
                  (replicate (length (digits a) + length (digits b)) 0);
          Some (removeLeadingZeros \<lparr>digits = rd, is_negative = (is_negative a \<noteq> is_negative b)\<rparr>) }"

subsection \<open>Increment and decrement\<close>

text \<open>
  \<open>++a\<close> is \<open>*this += bigint(1)\<close> and \<open>--a\<close> is \<open>*this -= bigint(1)\<close>; the
  constant comes from the 64-bit constructor and carries its unassigned sign flag. The
  post-forms return the old value next to the new one.
\<close>

definition operator_pre_inc :: "bool \<Rightarrow> bigint \<Rightarrow> bigint option" where
  "operator_pre_inc uninit a = operator_plus a (bigint_of_int64 uninit 1)"

definition operator_pre_dec :: "bool \<Rightarrow> bigint \<Rightarrow> bigint option" where
  "operator_pre_dec uninit a = operator_minus a (bigint_of_int64 uninit 1)"

definition operator_post_inc :: "bool \<Rightarrow> bigint \<Rightarrow> (bigint \<times> bigint) option" where
  "operator_post_inc uninit a = do { a' \<leftarrow> operator_pre_inc uninit a; Some (a, a') }"

definition operator_post_dec :: "bool \<Rightarrow> bigint \<Rightarrow> (bigint \<times> bigint) option" where
  "operator_post_dec uninit a = do { a' \<leftarrow> operator_pre_dec uninit a; Some (a, a') }"

subsection \<open>Output\<close>

text \<open>
  \<open>operator<<\<close> writes \<open>-\<close> when the flag is set and then every digit, from the last
  index down, as \<open>static_cast<int>(digit)\<close>, that is in decimal.
\<close>

function show_int :: "nat \<Rightarrow> string" where
  "show_int n = (if n < 10 then [char_of (48 + n)] else show_int (n div 10) @ [char_of (48 + n mod 10)])"
  by pat_completeness auto
termination
  by (relation "measure id") auto

declare show_int.simps [simp del]

fun output_digits :: "nat list \<Rightarrow> nat \<Rightarrow> string" where
  "output_digits ds 0 = []"
| "output_digits ds (Suc i) = show_int (ds ! i) @ output_digits ds i"

definition operator_out :: "bigint \<Rightarrow> string" where
  "operator_out v =
     (if is_negative v then ''-'' else []) @ output_digits (digits v) (length (digits v))"

section \<open>Value and invariants\<close>

text \<open>The integer a digit vector stands for, least-significant digit first.\<close>

fun magnitude :: "nat list \<Rightarrow> nat" where
  "magnitude [] = 0"
| "magnitude (d # ds) = d + 10 * magnitude ds"

definition int_of_bigint :: "bigint \<Rightarrow> int" where
  "int_of_bigint a = (if is_negative a then - int (magnitude (digits a)) else int (magnitude (digits a)))"

text \<open>
  The four invariants of the data model: the digit vector is not empty; it is the
  single digit 0 or its most significant digit is not zero; every digit is at most 9;
  the magnitude is not zero or the sign flag is false.
\<close>

definition invariants :: "bigint \<Rightarrow> bool" where
  "invariants a =
     (digits a \<noteq> []
      \<and> (digits a = [0] \<or> 0 < last (digits a))
      \<and> list_all (\<lambda>d. d \<le> 9) (digits a)
      \<and> (0 < magnitude (digits a) \<or> is_negative a = False))"

text \<open>
  The first, second and fourth invariant alone, on a digit vector: what a value keeps
  when only its sign flag is changed.
\<close>

definition normalized_digits :: "nat list \<Rightarrow> bool" where
  "normalized_digits ds = (ds \<noteq> [] \<and> (ds = [0] \<or> 0 < last ds) \<and> list_all (\<lambda>d. d \<le> 9) ds)"

section \<open>The parse grammar and the canonical text\<close>

text \<open>
  The grammar of the specification: an optional leading \<open>-\<close>, then one or more ASCII
  decimal digits. \<open>canonical\<close> strips the leading zeros of the digits and turns
  \<open>-0\<close> into \<open>0\<close>. Both follow the specification's wording, not the code.
\<close>

definition decimal_digit :: "char \<Rightarrow> bool" where
  "decimal_digit c = (c \<in> set ''0123456789'')"

definition matches_grammar :: "string \<Rightarrow> bool" where
  "matches_grammar s =
     (case s of
        [] \<Rightarrow> False
      | c # cs \<Rightarrow> if c = CHR ''-'' then cs \<noteq> [] \<and> list_all decimal_digit cs
                  else list_all decimal_digit (c # cs))"

fun strip_leading_zeros :: "string \<Rightarrow> string" where
  "strip_leading_zeros (c # d # cs) =
     (if c = CHR ''0'' then strip_leading_zeros (d # cs) else c # d # cs)"
| "strip_leading_zeros cs = cs"

definition canonical :: "string \<Rightarrow> string" where
  "canonical s =
     (case s of
        [] \<Rightarrow> []
      | c # cs \<Rightarrow>
          if c = CHR ''-''
          then (let t = strip_leading_zeros cs in if t = ''0'' then ''0'' else CHR ''-'' # t)
          else strip_leading_zeros s)"

section \<open>Normalization\<close>

lemma pop_zeros_snoc:
  "pop_zeros (xs @ [x]) = (if xs \<noteq> [] \<and> x = 0 then pop_zeros xs else xs @ [x])"
  by (subst pop_zeros.simps) (auto simp: Suc_lessI)

lemma pop_zeros_single: "pop_zeros [x] = [x]"
  by (subst pop_zeros.simps) simp

lemma pop_zeros_Nil: "pop_zeros [] = []"
  by (subst pop_zeros.simps) simp

lemma magnitude_snoc: "magnitude (xs @ [x]) = magnitude xs + x * 10 ^ length xs"
  by (induction xs) (auto simp: algebra_simps)

lemma magnitude_append: "magnitude (xs @ ys) = magnitude xs + magnitude ys * 10 ^ length xs"
  by (induction xs) (auto simp: algebra_simps)

lemma magnitude_pop_zeros: "magnitude (pop_zeros ds) = magnitude ds"
  by (induction ds rule: rev_induct) (auto simp: pop_zeros_Nil pop_zeros_snoc magnitude_snoc)

lemma pop_zeros_not_Nil: "ds \<noteq> [] \<Longrightarrow> pop_zeros ds \<noteq> []"
  by (induction ds rule: rev_induct) (auto simp: pop_zeros_snoc)

lemma pop_zeros_last: "ds \<noteq> [] \<Longrightarrow> pop_zeros ds = [0] \<or> 0 < last (pop_zeros ds)"
  by (induction ds rule: rev_induct) (auto simp: pop_zeros_snoc)

lemma pop_zeros_list_all: "list_all P ds \<Longrightarrow> list_all P (pop_zeros ds)"
  by (induction ds rule: rev_induct) (auto simp: pop_zeros_snoc pop_zeros_Nil)

lemma pop_zeros_length: "length (pop_zeros ds) \<le> length ds"
  by (induction ds rule: rev_induct) (auto simp: pop_zeros_snoc pop_zeros_Nil)

lemma magnitude_pos_last: "ds \<noteq> [] \<Longrightarrow> 0 < last ds \<Longrightarrow> 0 < magnitude ds"
  by (induction ds rule: rev_induct) (auto simp: magnitude_snoc)

lemma pop_zeros_zero_iff: "ds \<noteq> [] \<Longrightarrow> (pop_zeros ds = [0]) = (magnitude ds = 0)"
proof -
  assume ne: "ds \<noteq> []"
  have m: "magnitude (pop_zeros ds) = magnitude ds" by (rule magnitude_pop_zeros)
  from pop_zeros_last [OF ne] show ?thesis
  proof
    assume "pop_zeros ds = [0]"
    with m show ?thesis by simp
  next
    assume l: "0 < last (pop_zeros ds)"
    then have "0 < magnitude (pop_zeros ds)"
      using magnitude_pos_last [OF pop_zeros_not_Nil [OF ne]] by simp
    moreover from l have "pop_zeros ds \<noteq> [0]" by auto
    ultimately show ?thesis using m by simp
  qed
qed

lemma removeLeadingZeros_digits: "digits (removeLeadingZeros x) = pop_zeros (digits x)"
  by (simp add: removeLeadingZeros_def Let_def)

lemma length_one_zero: "(length ds = Suc 0 \<and> ds ! 0 = 0) = (ds = [0::nat])"
  by (cases ds) auto

lemma removeLeadingZeros_alt:
  "removeLeadingZeros x =
     \<lparr>digits = pop_zeros (digits x), is_negative = (is_negative x \<and> pop_zeros (digits x) \<noteq> [0])\<rparr>"
  by (simp add: removeLeadingZeros_def Let_def length_one_zero)

lemma removeLeadingZeros_sign:
  "digits x \<noteq> [] \<Longrightarrow> is_negative (removeLeadingZeros x) = (is_negative x \<and> 0 < magnitude (digits x))"
  using pop_zeros_zero_iff [of "digits x"]
  by (auto simp: removeLeadingZeros_alt)

lemma removeLeadingZeros_invariants:
  "digits x \<noteq> [] \<Longrightarrow> list_all (\<lambda>d. d \<le> 9) (digits x) \<Longrightarrow> invariants (removeLeadingZeros x)"
  unfolding invariants_def
  using pop_zeros_last [of "digits x"]
  by (auto simp: removeLeadingZeros_digits removeLeadingZeros_sign pop_zeros_not_Nil
        pop_zeros_list_all magnitude_pop_zeros)

lemma removeLeadingZeros_value:
  "digits x \<noteq> [] \<Longrightarrow> int_of_bigint (removeLeadingZeros x) = int_of_bigint x"
  by (auto simp: int_of_bigint_def removeLeadingZeros_digits removeLeadingZeros_sign magnitude_pop_zeros)

section \<open>Text to digits and back\<close>

lemma isdigit_decimal_digit: "isdigit c = decimal_digit c"
proof (cases c)
  case (Char b0 b1 b2 b3 b4 b5 b6 b7)
  then show ?thesis
    by (cases b0; cases b1; cases b2; cases b3; cases b4; cases b5; cases b6; cases b7)
       (simp_all add: isdigit_def decimal_digit_def)
qed

lemma decimal_digit_cases:
  "decimal_digit c \<Longrightarrow> c = CHR ''0'' \<and> digit_of_char c = 0 \<or> (0 < digit_of_char c \<and> c \<noteq> CHR ''0'')"
  by (auto simp: decimal_digit_def digit_of_char_def)

lemma decimal_digit_le9: "decimal_digit c \<Longrightarrow> digit_of_char c \<le> 9"
  by (auto simp: decimal_digit_def digit_of_char_def)

lemma show_int_digits_table:
  "list_all (\<lambda>c. show_int (digit_of_char c) = [c]) ''0123456789''"
  by code_simp

lemma show_int_digit_of_char: "decimal_digit c \<Longrightarrow> show_int (digit_of_char c) = [c]"
  using show_int_digits_table unfolding decimal_digit_def list_all_iff by blast

lemma output_digits_append:
  "i \<le> length xs \<Longrightarrow> output_digits (xs @ ys) i = output_digits xs i"
  by (induction i) (auto simp: nth_append)

lemma output_digits_snoc:
  "output_digits (xs @ [x]) (Suc (length xs)) = show_int x @ output_digits xs (length xs)"
  by (simp add: output_digits_append)

lemma output_digits_of_chars:
  "list_all decimal_digit cs \<Longrightarrow>
   output_digits (map digit_of_char (rev cs)) (length cs) = cs"
proof (induction cs)
  case Nil
  then show ?case by simp
next
  case (Cons c cs)
  have "output_digits (map digit_of_char (rev cs) @ [digit_of_char c]) (Suc (length (map digit_of_char (rev cs))))
        = show_int (digit_of_char c) @ output_digits (map digit_of_char (rev cs)) (length (map digit_of_char (rev cs)))"
    by (rule output_digits_snoc)
  with Cons show ?case by (simp add: show_int_digit_of_char)
qed

lemma string_digits_all:
  "i \<le> length s \<Longrightarrow> list_all decimal_digit (drop start s) \<Longrightarrow>
   string_digits s start i ds = Inr (ds @ map digit_of_char (rev (take (i - start) (drop start s))))"
proof (induction i arbitrary: ds)
  case 0
  then show ?case by simp
next
  case (Suc i)
  show ?case
  proof (cases "start < Suc i")
    case False
    then show ?thesis by simp
  next
    case True
    then have si: "start \<le> i" by simp
    from Suc.prems have il: "i < length s" by simp
    have nth: "drop start s ! (i - start) = s ! i" using si il by simp
    have "i - start < length (drop start s)" using si il by simp
    then have dd: "decimal_digit (s ! i)"
      using Suc.prems(2) nth unfolding list_all_length by metis
    have tk: "take (Suc i - start) (drop start s) = take (i - start) (drop start s) @ [s ! i]"
      using si il nth by (simp add: Suc_diff_le take_Suc_conv_app_nth)
    have ih: "string_digits s start i (ds @ [digit_of_char (s ! i)])
          = Inr ((ds @ [digit_of_char (s ! i)]) @ map digit_of_char (rev (take (i - start) (drop start s))))"
      using Suc.IH [of "ds @ [digit_of_char (s ! i)]"] Suc.prems by simp
    show ?thesis using True dd ih tk by (simp add: isdigit_decimal_digit)
  qed
qed

lemma string_digits_whole:
  "start \<le> length s \<Longrightarrow> list_all decimal_digit (drop start s) \<Longrightarrow>
   string_digits s start (length s) [] = Inr (map digit_of_char (rev (drop start s)))"
  using string_digits_all [of "length s" s start "[]"] by simp

text \<open>
  Printing the normalized digits of a digit string gives the string without its leading
  zeros, and the normalized digits are those of zero exactly when that string is \<open>0\<close>.
\<close>

lemma output_pop_zeros:
  "cs \<noteq> [] \<Longrightarrow> list_all decimal_digit cs \<Longrightarrow>
   output_digits (pop_zeros (map digit_of_char (rev cs))) (length (pop_zeros (map digit_of_char (rev cs))))
     = strip_leading_zeros cs
   \<and> (pop_zeros (map digit_of_char (rev cs)) = [0]) = (strip_leading_zeros cs = ''0'')"
proof (induction cs)
  case Nil
  then show ?case by simp
next
  case (Cons c cs)
  note all = Cons.prems(2) and step = Cons.IH
  from all have dc: "decimal_digit c" and rest: "list_all decimal_digit cs" by simp_all
  show ?case
  proof (cases cs)
    case Nil
    have "output_digits [digit_of_char c] (Suc 0) = [c]"
      using output_digits_of_chars [of "[c]"] dc by simp
    moreover have "(digit_of_char c = 0) = (c = CHR ''0'')"
      using decimal_digit_cases [OF dc] by auto
    ultimately show ?thesis using Nil by (simp add: pop_zeros_single)
  next
    case (Cons d cs')
    then have more: "cs \<noteq> []" by simp
    let ?xs = "map digit_of_char (rev cs)"
    have ne: "?xs \<noteq> []" using more by simp
    have pz: "pop_zeros (map digit_of_char (rev (c # cs)))
              = (if digit_of_char c = 0 then pop_zeros ?xs else ?xs @ [digit_of_char c])"
      using pop_zeros_snoc [of ?xs "digit_of_char c"] ne by simp
    have ih: "output_digits (pop_zeros ?xs) (length (pop_zeros ?xs)) = strip_leading_zeros cs
              \<and> (pop_zeros ?xs = [0]) = (strip_leading_zeros cs = ''0'')"
      using step [OF more rest] .
    show ?thesis
    proof (cases "c = CHR ''0''")
      case True
      then have "digit_of_char c = 0" using decimal_digit_cases [OF dc] by auto
      with True pz ih Cons show ?thesis by simp
    next
      case False
      then have pos: "0 < digit_of_char c" using decimal_digit_cases [OF dc] by auto
      have "output_digits (map digit_of_char (rev (c # cs))) (length (c # cs)) = c # cs"
        using output_digits_of_chars [OF all] .
      with False pos pz Cons show ?thesis by simp
    qed
  qed
qed

lemma digits_of_chars_le9:
  "list_all decimal_digit cs \<Longrightarrow> list_all (\<lambda>d. d \<le> 9) (map digit_of_char (rev cs))"
  by (induction cs) (auto simp: decimal_digit_le9)

lemma parse_digit_string:
  assumes ne: "cs \<noteq> []" and dd: "list_all decimal_digit cs"
    and sd: "string_digits s start (length s) [] = Inr (map digit_of_char (rev cs))"
    and nz: "s \<noteq> []" and sg: "(s ! 0 = CHR ''-'') = neg" and st: "start = (if neg then 1 else 0)"
  shows "\<exists>v. bigint_of_string s = Inr v \<and> invariants v
           \<and> digits v = pop_zeros (map digit_of_char (rev cs))
           \<and> is_negative v = (neg \<and> strip_leading_zeros cs \<noteq> ''0'')
           \<and> operator_out v = (if neg \<and> strip_leading_zeros cs \<noteq> ''0'' then ''-'' else []) @ strip_leading_zeros cs"
proof -
  let ?ds = "map digit_of_char (rev cs)"
  let ?x = "\<lparr>digits = ?ds, is_negative = neg\<rparr>"
  have p: "bigint_of_string s = Inr (removeLeadingZeros ?x)"
    using sd nz sg st by (auto simp: bigint_of_string_def Let_def)
  have inv: "invariants (removeLeadingZeros ?x)"
    using ne dd by (intro removeLeadingZeros_invariants) (simp_all add: digits_of_chars_le9)
  have out: "output_digits (pop_zeros ?ds) (length (pop_zeros ?ds)) = strip_leading_zeros cs"
    and z: "(pop_zeros ?ds = [0]) = (strip_leading_zeros cs = ''0'')"
    using output_pop_zeros [OF ne dd] by simp_all
  have sgn: "is_negative (removeLeadingZeros ?x) = (neg \<and> strip_leading_zeros cs \<noteq> ''0'')"
    using z by (simp add: removeLeadingZeros_alt)
  have "operator_out (removeLeadingZeros ?x)
        = (if neg \<and> strip_leading_zeros cs \<noteq> ''0'' then ''-'' else []) @ strip_leading_zeros cs"
    unfolding operator_out_def sgn using out by (simp add: removeLeadingZeros_digits)
  with p inv sgn show ?thesis by (simp add: removeLeadingZeros_digits)
qed

section \<open>The loops of multiplication\<close>

text \<open>
  The inner loop keeps the buffer's value plus the pending carry equal to what one row
  of the schoolbook product adds; the outer loop keeps the buffer equal to the product
  of the digits consumed so far with the other operand, and the buffer above the rows
  written so far still zero.
\<close>

lemma vec_at_Some: "i < length v \<Longrightarrow> vec_at v i = Some (v ! i)"
  by (simp add: vec_at_def)

lemma vec_put_Some: "i < length v \<Longrightarrow> vec_put v i x = Some (v[i := x])"
  by (simp add: vec_put_def)

lemma magnitude_replicate: "magnitude (replicate n 0) = 0"
  by (induction n) auto

lemma magnitude_update:
  "i < length r \<Longrightarrow> magnitude (r[i := v]) + r ! i * 10 ^ i = magnitude r + v * 10 ^ i"
proof (induction r arbitrary: i)
  case Nil
  then show ?case by simp
next
  case (Cons d r)
  show ?case
  proof (cases i)
    case 0
    then show ?thesis by simp
  next
    case (Suc k)
    with Cons.prems have "k < length r" by simp
    from Cons.IH [OF this] have "10 * (magnitude (r[k := v]) + r ! k * 10 ^ k) = 10 * (magnitude r + v * 10 ^ k)"
      by simp
    with Suc show ?thesis by (simp add: algebra_simps)
  qed
qed

lemma magnitude_take_Suc:
  "i < length ds \<Longrightarrow> magnitude (take (Suc i) ds) = magnitude (take i ds) + ds ! i * 10 ^ i"
  by (simp add: take_Suc_conv_app_nth magnitude_snoc)

lemma magnitude_drop:
  "j < length ds \<Longrightarrow> magnitude (drop j ds) = ds ! j + 10 * magnitude (drop (Suc j) ds)"
  by (simp flip: Cons_nth_drop_Suc)

lemma list_all_nth_le: "list_all (\<lambda>d. d \<le> n) ds \<Longrightarrow> i < length ds \<Longrightarrow> ds ! i \<le> (n::nat)"
  by (simp add: list_all_length)

lemma list_all_update_le:
  "list_all (\<lambda>d. d \<le> n) ds \<Longrightarrow> v \<le> (n::nat) \<Longrightarrow> list_all (\<lambda>d. d \<le> n) (ds[i := v])"
  by (cases "i < length ds") (auto simp: list_all_length nth_list_update)

lemma digit_product_carry:
  assumes "di \<le> 9" "oj \<le> 9" "r \<le> 9" "carry \<le> (9::nat)"
  shows "(di * oj + r + carry) div 10 \<le> 9"
proof -
  have "di * oj \<le> 9 * 9" using assms(1,2) by (rule mult_le_mono)
  with assms(3,4) have "di * oj + r + carry \<le> 99" by simp
  then show ?thesis by simp
qed

lemma multiply_inner_correct:
  assumes len: "i + length other \<le> n"
    and od: "list_all (\<lambda>d. d \<le> 9) other" and di: "di \<le> 9"
  shows "j \<le> length other \<Longrightarrow> list_all (\<lambda>d. d \<le> 9) rd \<Longrightarrow> carry \<le> 9 \<Longrightarrow> length rd = n \<Longrightarrow>
    \<exists>c rd'. multiply_inner other di i j carry rd = Some (c, rd') \<and> length rd' = n
       \<and> list_all (\<lambda>d. d \<le> 9) rd' \<and> c \<le> 9
       \<and> (\<forall>k\<ge>i + length other. rd' ! k = rd ! k)
       \<and> magnitude rd' + c * 10 ^ (i + length other)
           = magnitude rd + carry * 10 ^ (i + j) + di * magnitude (drop j other) * 10 ^ (i + j)"
proof (induction "length other - j" arbitrary: j carry rd)
  case 0
  then have j: "j = length other" by simp
  then show ?case using 0 by (subst multiply_inner.simps) simp
next
  case (Suc m)
  then have j: "j < length other" by simp
  let ?oj = "other ! j" and ?r = "rd ! (i + j)"
  let ?multi = "di * ?oj + ?r + carry"
  let ?rd1 = "rd[i + j := ?multi mod 10]"
  from len Suc.prems j have ij: "i + j < length rd" by simp
  have oj9: "?oj \<le> 9" using od j by (rule list_all_nth_le)
  have r9: "?r \<le> 9" using Suc.prems(2) ij by (rule list_all_nth_le)
  have c9: "?multi div 10 \<le> 9" using di oj9 r9 Suc.prems(3) by (rule digit_product_carry)
  have m9: "?multi mod 10 \<le> 9" by simp
  have rd1_9: "list_all (\<lambda>d. d \<le> 9) ?rd1" using Suc.prems(2) m9 by (rule list_all_update_le)
  have unfold: "multiply_inner other di i j carry rd
                = multiply_inner other di i (j + 1) (?multi div 10) ?rd1"
    using j ij by (subst multiply_inner.simps) (simp add: vec_at_Some vec_put_Some Let_def)
  have "m = length other - (j + 1)" using Suc.hyps(2) by simp
  from Suc.hyps(1) [OF this _ rd1_9 c9] j Suc.prems(4)
  obtain c rd' where ih: "multiply_inner other di i (j + 1) (?multi div 10) ?rd1 = Some (c, rd')"
    "length rd' = n" "list_all (\<lambda>d. d \<le> 9) rd'" "c \<le> 9"
    "\<forall>k\<ge>i + length other. rd' ! k = ?rd1 ! k"
    "magnitude rd' + c * 10 ^ (i + length other)
       = magnitude ?rd1 + (?multi div 10) * 10 ^ (i + (j + 1))
         + di * magnitude (drop (j + 1) other) * 10 ^ (i + (j + 1))"
    by auto
  have same: "\<forall>k\<ge>i + length other. rd' ! k = rd ! k"
    using ih(5) j by simp
  have upd: "magnitude ?rd1 + ?r * 10 ^ (i + j) = magnitude rd + (?multi mod 10) * 10 ^ (i + j)"
    using ij by (rule magnitude_update)
  have dm: "(?multi div 10) * 10 + ?multi mod 10 = ?multi" by simp
  have drop: "magnitude (drop j other) = ?oj + 10 * magnitude (drop (j + 1) other)"
    using magnitude_drop [OF j] by simp
  let ?P = "(10::nat) ^ (i + j)"
  have "magnitude rd' + c * 10 ^ (i + length other) + ?r * ?P
        = magnitude rd + (?multi mod 10) * ?P + (?multi div 10) * 10 * ?P
          + di * magnitude (drop (j + 1) other) * 10 * ?P"
    using ih(6) upd by (simp add: algebra_simps)
  also have "\<dots> = magnitude rd + ((?multi div 10) * 10 + ?multi mod 10) * ?P
          + di * magnitude (drop (j + 1) other) * 10 * ?P"
    by (simp only: algebra_simps)
  also have "\<dots> = magnitude rd + ?multi * ?P + di * magnitude (drop (j + 1) other) * 10 * ?P"
    by (simp only: dm)
  also have "\<dots> = magnitude rd + carry * ?P + di * magnitude (drop j other) * ?P + ?r * ?P"
    unfolding drop by (simp add: algebra_simps)
  finally have "magnitude rd' + c * 10 ^ (i + length other)
                = magnitude rd + carry * ?P + di * magnitude (drop j other) * ?P"
    by simp
  with ih(1-4) same unfold show ?case by simp
qed

lemma multiply_outer_correct:
  assumes od: "list_all (\<lambda>d. d \<le> 9) other" and dd: "list_all (\<lambda>d. d \<le> 9) ds"
    and n: "n = length ds + length other"
  shows "i \<le> length ds \<Longrightarrow> length rd = n \<Longrightarrow> list_all (\<lambda>d. d \<le> 9) rd \<Longrightarrow>
    (\<forall>k\<ge>i + length other. k < n \<longrightarrow> rd ! k = 0) \<Longrightarrow>
    magnitude rd = magnitude (take i ds) * magnitude other \<Longrightarrow>
    \<exists>rd'. multiply_outer ds other i rd = Some rd' \<and> length rd' = n
       \<and> list_all (\<lambda>d. d \<le> 9) rd' \<and> magnitude rd' = magnitude ds * magnitude other"
proof (induction "length ds - i" arbitrary: i rd)
  case 0
  then have "i = length ds" by simp
  with 0 show ?case by (subst multiply_outer.simps) simp
next
  case (Suc m)
  then have i: "i < length ds" by simp
  let ?di = "ds ! i"
  let ?k = "i + length other"
  have di9: "?di \<le> 9" using dd i by (rule list_all_nth_le)
  have len: "?k \<le> n" using i n by simp
  have kn: "?k < n" using i n by simp
  from multiply_inner_correct [OF len od di9, of 0 rd 0] Suc.prems(2,3)
  obtain c rd1 where inner: "multiply_inner other ?di i 0 0 rd = Some (c, rd1)"
    "length rd1 = n" "list_all (\<lambda>d. d \<le> 9) rd1" "c \<le> 9"
    "\<forall>k\<ge>?k. rd1 ! k = rd ! k"
    "magnitude rd1 + c * 10 ^ ?k = magnitude rd + ?di * magnitude other * 10 ^ i"
    by auto
  have z: "rd1 ! ?k = 0" using inner(5) Suc.prems(4) kn by simp
  let ?rd2 = "rd1[?k := c]"
  have c256: "(rd1 ! ?k + c) mod 256 = c" using z inner(4) by simp
  have unfold: "multiply_outer ds other i rd = multiply_outer ds other (i + 1) ?rd2"
    using i inner(1,2) kn c256
    by (subst multiply_outer.simps) (simp add: vec_at_Some vec_put_Some)
  have rd2_9: "list_all (\<lambda>d. d \<le> 9) ?rd2" using inner(3,4) by (rule list_all_update_le)
  have rd2_len: "length ?rd2 = n" using inner(2) by simp
  have zeros: "\<forall>k\<ge>(i + 1) + length other. k < n \<longrightarrow> ?rd2 ! k = 0"
    using inner(5) Suc.prems(4) by simp
  have "magnitude ?rd2 + rd1 ! ?k * 10 ^ ?k = magnitude rd1 + c * 10 ^ ?k"
    using kn inner(2) by (intro magnitude_update) simp
  then have "magnitude ?rd2 = magnitude rd + ?di * magnitude other * 10 ^ i"
    using z inner(6) by simp
  also have "\<dots> = (magnitude (take i ds) + ?di * 10 ^ i) * magnitude other"
    using Suc.prems(5) by (simp add: algebra_simps)
  also have "\<dots> = magnitude (take (i + 1) ds) * magnitude other"
    using magnitude_take_Suc [OF i] by simp
  finally have mag: "magnitude ?rd2 = magnitude (take (i + 1) ds) * magnitude other" .
  have "m = length ds - (i + 1)" using Suc.hyps(2) by simp
  from Suc.hyps(1) [OF this _ rd2_len rd2_9 zeros mag] i unfold
  show ?case by simp
qed

lemma operator_times_correct:
  assumes da: "list_all (\<lambda>d. d \<le> 9) (digits a)" and db: "list_all (\<lambda>d. d \<le> 9) (digits b)"
    and ne: "digits a \<noteq> []"
  shows "\<exists>r. operator_times a b = Some r \<and> invariants r
           \<and> magnitude (digits r) = magnitude (digits a) * magnitude (digits b)
           \<and> is_negative r = (is_negative a \<noteq> is_negative b
                                \<and> 0 < magnitude (digits a) * magnitude (digits b))
           \<and> length (digits r) \<le> length (digits a) + length (digits b)"
proof -
  let ?n = "length (digits a) + length (digits b)"
  let ?rd0 = "replicate ?n (0::nat)"
  have "\<exists>rd'. multiply_outer (digits a) (digits b) 0 ?rd0 = Some rd' \<and> length rd' = ?n
       \<and> list_all (\<lambda>d. d \<le> 9) rd' \<and> magnitude rd' = magnitude (digits a) * magnitude (digits b)"
    by (rule multiply_outer_correct [OF db da refl])
       (simp_all add: magnitude_replicate list_all_length)
  then obtain rd where rd: "multiply_outer (digits a) (digits b) 0 ?rd0 = Some rd"
    "length rd = ?n" "list_all (\<lambda>d. d \<le> 9) rd"
    "magnitude rd = magnitude (digits a) * magnitude (digits b)"
    by blast
  let ?x = "\<lparr>digits = rd, is_negative = (is_negative a \<noteq> is_negative b)\<rparr>"
  have t: "operator_times a b = Some (removeLeadingZeros ?x)"
    using rd(1) by (simp add: operator_times_def)
  have rne: "digits ?x \<noteq> []" using rd(2) ne by auto
  have inv: "invariants (removeLeadingZeros ?x)"
    using rne rd(3) by (intro removeLeadingZeros_invariants) simp_all
  have sgn: "is_negative (removeLeadingZeros ?x)
             = (is_negative a \<noteq> is_negative b \<and> 0 < magnitude (digits a) * magnitude (digits b))"
    using removeLeadingZeros_sign [OF rne] rd(4) by simp
  have mag: "magnitude (digits (removeLeadingZeros ?x)) = magnitude (digits a) * magnitude (digits b)"
    using rd(4) by (simp add: removeLeadingZeros_digits magnitude_pop_zeros)
  have len: "length (digits (removeLeadingZeros ?x)) \<le> ?n"
    using pop_zeros_length [of rd] rd(2) by (simp add: removeLeadingZeros_digits)
  from t inv sgn mag len show ?thesis by blast
qed

section \<open>Comparison on normalized digits\<close>

lemma invariants_normalized: "invariants a \<Longrightarrow> normalized_digits (digits a)"
  by (simp add: invariants_def normalized_digits_def)

lemma magnitude_lt_pow: "list_all (\<lambda>d. d \<le> 9) ds \<Longrightarrow> magnitude ds < 10 ^ length ds"
  by (induction ds) auto

lemma magnitude_ge_pow: "ds \<noteq> [] \<Longrightarrow> 0 < last ds \<Longrightarrow> 10 ^ (length ds - 1) \<le> magnitude ds"
proof (induction ds rule: rev_induct)
  case Nil
  then show ?case by simp
next
  case (snoc x xs)
  then have "1 \<le> x" by simp
  then have "1 * 10 ^ length xs \<le> x * 10 ^ length xs" by (rule mult_le_mono1)
  then have "10 ^ length xs \<le> magnitude xs + x * 10 ^ length xs" by (simp add: trans_le_add2)
  then show ?case by (simp add: magnitude_snoc)
qed

lemma shorter_is_smaller:
  assumes a: "normalized_digits a" and b: "normalized_digits b" and l: "length a < length b"
  shows "magnitude a < magnitude b"
proof -
  from a b l have "2 \<le> length b" by (cases a) (auto simp: normalized_digits_def)
  with b have lb: "0 < last b" and ne: "b \<noteq> []" by (auto simp: normalized_digits_def)
  have "magnitude a < 10 ^ length a" using a by (simp add: magnitude_lt_pow normalized_digits_def)
  also have "(10::nat) ^ length a \<le> 10 ^ (length b - 1)" using l by (intro power_increasing) simp_all
  also have "\<dots> \<le> magnitude b" using ne lb by (rule magnitude_ge_pow)
  finally show ?thesis .
qed

lemma take_all_le9: "list_all (\<lambda>d. d \<le> 9) ds \<Longrightarrow> list_all (\<lambda>d. d \<le> (9::nat)) (take i ds)"
  by (auto simp: list_all_length)

lemma magnitude_take_lt: "list_all (\<lambda>d. d \<le> 9) ds \<Longrightarrow> i \<le> length ds \<Longrightarrow> magnitude (take i ds) < 10 ^ i"
  using magnitude_lt_pow [OF take_all_le9, of ds i] by simp

lemma digit_decides:
  assumes "A < (P::nat)" and "x < y"
  shows "A + x * P < B + y * P"
proof -
  have "A + x * P < P + x * P" using assms(1) by simp
  also have "\<dots> = (x + 1) * P" by simp
  also have "\<dots> \<le> y * P" using assms(2) by (intro mult_le_mono) simp_all
  also have "\<dots> \<le> B + y * P" by simp
  finally show ?thesis .
qed

lemma less_nonneg_loop_magnitude:
  assumes "length a = length b" and "list_all (\<lambda>d. d \<le> 9) a" and "list_all (\<lambda>d. d \<le> 9) b"
  shows "i \<le> length a \<Longrightarrow>
         less_nonneg_loop a b i = Some (magnitude (take i a) < magnitude (take i b))"
proof (induction i)
  case 0
  then show ?case by simp
next
  case (Suc i)
  then have ia: "i < length a" and ib: "i < length b" using assms(1) by simp_all
  let ?A = "magnitude (take i a)" and ?B = "magnitude (take i b)"
  have A: "?A < 10 ^ i" using assms(2) ia by (intro magnitude_take_lt) simp_all
  have B: "?B < 10 ^ i" using assms(3) ib by (intro magnitude_take_lt) simp_all
  have ta: "magnitude (take (Suc i) a) = ?A + a ! i * 10 ^ i" using ia by (rule magnitude_take_Suc)
  have tb: "magnitude (take (Suc i) b) = ?B + b ! i * 10 ^ i" using ib by (rule magnitude_take_Suc)
  have ih: "less_nonneg_loop a b i = Some (?A < ?B)" using Suc by simp
  consider (lt) "a ! i < b ! i" | (gt) "b ! i < a ! i" | (eq) "a ! i = b ! i" by linarith
  then show ?case
  proof cases
    case lt
    then have "?A + a ! i * 10 ^ i < ?B + b ! i * 10 ^ i" using A by (intro digit_decides)
    with lt ia ib ta tb show ?thesis by (simp add: vec_at_Some)
  next
    case gt
    then have "?B + b ! i * 10 ^ i < ?A + a ! i * 10 ^ i" using B by (intro digit_decides)
    with gt ia ib ta tb show ?thesis by (simp add: vec_at_Some)
  next
    case eq
    with ih ia ib ta tb show ?thesis by (simp add: vec_at_Some)
  qed
qed

lemma less_neg_loop_magnitude:
  assumes "length a = length b" and "list_all (\<lambda>d. d \<le> 9) a" and "list_all (\<lambda>d. d \<le> 9) b"
  shows "i \<le> length a \<Longrightarrow>
         less_neg_loop a b i = Some (magnitude (take i b) < magnitude (take i a))"
proof (induction i)
  case 0
  then show ?case by simp
next
  case (Suc i)
  then have ia: "i < length a" and ib: "i < length b" using assms(1) by simp_all
  let ?A = "magnitude (take i a)" and ?B = "magnitude (take i b)"
  have A: "?A < 10 ^ i" using assms(2) ia by (intro magnitude_take_lt) simp_all
  have B: "?B < 10 ^ i" using assms(3) ib by (intro magnitude_take_lt) simp_all
  have ta: "magnitude (take (Suc i) a) = ?A + a ! i * 10 ^ i" using ia by (rule magnitude_take_Suc)
  have tb: "magnitude (take (Suc i) b) = ?B + b ! i * 10 ^ i" using ib by (rule magnitude_take_Suc)
  have ih: "less_neg_loop a b i = Some (?B < ?A)" using Suc by simp
  consider (lt) "a ! i < b ! i" | (gt) "b ! i < a ! i" | (eq) "a ! i = b ! i" by linarith
  then show ?case
  proof cases
    case lt
    then have "?A + a ! i * 10 ^ i < ?B + b ! i * 10 ^ i" using A by (intro digit_decides)
    with lt ia ib ta tb show ?thesis by (simp add: vec_at_Some)
  next
    case gt
    then have "?B + b ! i * 10 ^ i < ?A + a ! i * 10 ^ i" using B by (intro digit_decides)
    with gt ia ib ta tb show ?thesis by (simp add: vec_at_Some)
  next
    case eq
    with ih ia ib ta tb show ?thesis by (simp add: vec_at_Some)
  qed
qed

text \<open>What \<open>operator<\<close> returns on normalized digit vectors, whatever the signs.\<close>

lemma operator_less_normalized:
  assumes a: "normalized_digits (digits a)" and b: "normalized_digits (digits b)"
  shows "operator_less a b =
     Some (if is_negative a \<and> \<not> is_negative b then True
           else if \<not> is_negative a \<and> is_negative b then False
           else if length (digits a) \<noteq> length (digits b) then length (digits a) < length (digits b)
           else if is_negative a then magnitude (digits b) < magnitude (digits a)
           else magnitude (digits a) < magnitude (digits b))"
proof -
  from a b have a9: "list_all (\<lambda>d. d \<le> 9) (digits a)" and b9: "list_all (\<lambda>d. d \<le> 9) (digits b)"
    by (simp_all add: normalized_digits_def)
  have p: "length (digits a) = length (digits b) \<Longrightarrow>
        less_nonneg_loop (digits a) (digits b) (length (digits a))
          = Some (magnitude (digits a) < magnitude (digits b))"
    using less_nonneg_loop_magnitude [OF _ a9 b9, of "length (digits a)"] by simp
  have n: "length (digits a) = length (digits b) \<Longrightarrow>
        less_neg_loop (digits a) (digits b) (length (digits a))
          = Some (magnitude (digits b) < magnitude (digits a))"
    using less_neg_loop_magnitude [OF _ a9 b9, of "length (digits a)"] by simp
  show ?thesis using p n by (auto simp: operator_less_def)
qed

lemma operator_less_nonneg:
  assumes a: "normalized_digits (digits a)" and b: "normalized_digits (digits b)"
    and "\<not> is_negative a" "\<not> is_negative b"
  shows "operator_less a b = Some (magnitude (digits a) < magnitude (digits b))"
proof -
  consider (lt) "length (digits a) < length (digits b)" | (gt) "length (digits b) < length (digits a)"
    | (eq) "length (digits a) = length (digits b)" by linarith
  then show ?thesis
  proof cases
    case lt
    then have "magnitude (digits a) < magnitude (digits b)" using shorter_is_smaller [OF a b] by simp
    with lt assms(3,4) show ?thesis unfolding operator_less_normalized [OF a b] by simp
  next
    case gt
    then have "magnitude (digits b) < magnitude (digits a)" using shorter_is_smaller [OF b a] by simp
    with gt assms(3,4) show ?thesis unfolding operator_less_normalized [OF a b] by simp
  next
    case eq
    with assms(3,4) show ?thesis unfolding operator_less_normalized [OF a b] by simp
  qed
qed

section \<open>The loops of addition\<close>

lemma list_all_snoc_le: "list_all (\<lambda>d. d \<le> n) ds \<Longrightarrow> v \<le> (n::nat) \<Longrightarrow> list_all (\<lambda>d. d \<le> n) (ds @ [v])"
  by simp

lemma magnitude_push:
  "magnitude (rd @ [t]) + q * 10 ^ (length rd + 1) = magnitude rd + (q * 10 + t) * 10 ^ length rd"
  by (simp add: magnitude_snoc algebra_simps)

lemma digit_split:
  "magnitude (rd @ [s mod 10]) + (s div 10) * 10 ^ (length rd + 1) = magnitude rd + s * 10 ^ length rd"
  using magnitude_push [of rd "s mod 10" "s div 10"] by simp

lemma addDigits_both_correct:
  assumes L9: "list_all (\<lambda>d. d \<le> 9) L" and S9: "list_all (\<lambda>d. d \<le> 9) S"
    and len: "length S \<le> length L"
  shows "i \<le> length S \<Longrightarrow> length rd = i \<Longrightarrow> list_all (\<lambda>d. d \<le> 9) rd \<Longrightarrow> carry \<le> 1 \<Longrightarrow>
    magnitude rd + carry * 10 ^ i = magnitude (take i L) + magnitude (take i S) \<Longrightarrow>
    \<exists>c rd'. addDigits_both L S i carry rd = Some (length S, c, rd') \<and> length rd' = length S
       \<and> list_all (\<lambda>d. d \<le> 9) rd' \<and> c \<le> 1
       \<and> magnitude rd' + c * 10 ^ length S = magnitude (take (length S) L) + magnitude S"
proof (induction "length S - i" arbitrary: i carry rd)
  case 0
  then have "i = length S" by simp
  with 0 show ?case by (subst addDigits_both.simps) simp
next
  case (Suc m)
  then have iS: "i < length S" by simp
  with len have iL: "i < length L" by simp
  let ?sum = "L ! i + S ! i + carry"
  let ?rd1 = "rd @ [?sum mod 10]"
  have l9: "L ! i \<le> 9" using L9 iL by (rule list_all_nth_le)
  have s9: "S ! i \<le> 9" using S9 iS by (rule list_all_nth_le)
  have sum19: "?sum \<le> 19" using l9 s9 Suc.prems(4) by simp
  then have s256: "?sum mod 256 = ?sum" by simp
  have c1: "?sum div 10 \<le> 1" using sum19 by simp
  have unfold: "addDigits_both L S i carry rd = addDigits_both L S (i + 1) (?sum div 10) ?rd1"
    using iS iL s256 by (subst addDigits_both.simps) (simp add: vec_at_Some Let_def)
  have rd1_9: "list_all (\<lambda>d. d \<le> 9) ?rd1" using Suc.prems(3) by simp
  have rd1_len: "length ?rd1 = i + 1" using Suc.prems(2) by simp
  have "magnitude ?rd1 + (?sum div 10) * 10 ^ (i + 1) = magnitude rd + ?sum * 10 ^ i"
    using digit_split [of rd ?sum] Suc.prems(2) by simp
  also have "\<dots> = (magnitude rd + carry * 10 ^ i) + L ! i * 10 ^ i + S ! i * 10 ^ i"
    by (simp add: algebra_simps)
  also have "\<dots> = magnitude (take (i + 1) L) + magnitude (take (i + 1) S)"
    using Suc.prems(5) magnitude_take_Suc [OF iL] magnitude_take_Suc [OF iS] by simp
  finally have mag: "magnitude ?rd1 + (?sum div 10) * 10 ^ (i + 1)
        = magnitude (take (i + 1) L) + magnitude (take (i + 1) S)" .
  have "m = length S - (i + 1)" using Suc.hyps(2) by simp
  from Suc.hyps(1) [OF this _ rd1_len rd1_9 c1 mag] iS unfold
  show ?case by simp
qed

lemma addDigits_rest_correct:
  assumes L9: "list_all (\<lambda>d. d \<le> 9) L"
  shows "i \<le> length L \<Longrightarrow> length rd = i \<Longrightarrow> list_all (\<lambda>d. d \<le> 9) rd \<Longrightarrow> carry \<le> 1 \<Longrightarrow>
    magnitude rd + carry * 10 ^ i = magnitude (take i L) + M \<Longrightarrow>
    \<exists>c rd'. addDigits_rest L i carry rd = Some (c, rd') \<and> length rd' = length L
       \<and> list_all (\<lambda>d. d \<le> 9) rd' \<and> c \<le> 1
       \<and> magnitude rd' + c * 10 ^ length L = magnitude L + M"
proof (induction "length L - i" arbitrary: i carry rd)
  case 0
  then have "i = length L" by simp
  with 0 show ?case by (subst addDigits_rest.simps) simp
next
  case (Suc m)
  then have iL: "i < length L" by simp
  let ?sum = "L ! i + carry"
  let ?rd1 = "rd @ [?sum mod 10]"
  have l9: "L ! i \<le> 9" using L9 iL by (rule list_all_nth_le)
  have sum10: "?sum \<le> 10" using l9 Suc.prems(4) by simp
  then have s256: "?sum mod 256 = ?sum" by simp
  have c1: "?sum div 10 \<le> 1" using sum10 by simp
  have unfold: "addDigits_rest L i carry rd = addDigits_rest L (i + 1) (?sum div 10) ?rd1"
    using iL s256 by (subst addDigits_rest.simps) (simp add: vec_at_Some Let_def)
  have rd1_9: "list_all (\<lambda>d. d \<le> 9) ?rd1" using Suc.prems(3) by simp
  have rd1_len: "length ?rd1 = i + 1" using Suc.prems(2) by simp
  have "magnitude ?rd1 + (?sum div 10) * 10 ^ (i + 1) = magnitude rd + ?sum * 10 ^ i"
    using digit_split [of rd ?sum] Suc.prems(2) by simp
  also have "\<dots> = (magnitude rd + carry * 10 ^ i) + L ! i * 10 ^ i"
    by (simp add: algebra_simps)
  also have "\<dots> = magnitude (take (i + 1) L) + M"
    using Suc.prems(5) magnitude_take_Suc [OF iL] by simp
  finally have mag: "magnitude ?rd1 + (?sum div 10) * 10 ^ (i + 1) = magnitude (take (i + 1) L) + M" .
  have "m = length L - (i + 1)" using Suc.hyps(2) by simp
  from Suc.hyps(1) [OF this _ rd1_len rd1_9 c1 mag] iL unfold
  show ?case by simp
qed

lemma magnitude_take_drop: "magnitude ds = magnitude (take n ds) + magnitude (drop n ds) * 10 ^ min (length ds) n"
  using magnitude_append [of "take n ds" "drop n ds"] by simp

lemma addDigits_correct:
  assumes L9: "list_all (\<lambda>d. d \<le> 9) L" and S9: "list_all (\<lambda>d. d \<le> 9) S"
    and len: "length S \<le> length L" and ne: "L \<noteq> []"
  shows "\<exists>r. addDigits L S = Some r \<and> invariants r \<and> \<not> is_negative r
           \<and> magnitude (digits r) = magnitude L + magnitude S"
proof -
  from addDigits_both_correct [OF L9 S9 len, of 0 "[]" 0]
  obtain c rd where both: "addDigits_both L S 0 0 [] = Some (length S, c, rd)" "length rd = length S"
    "list_all (\<lambda>d. d \<le> 9) rd" "c \<le> 1"
    "magnitude rd + c * 10 ^ length S = magnitude (take (length S) L) + magnitude S"
    by auto
  from addDigits_rest_correct [OF L9 len both(2,3,4,5)]
  obtain c' rd' where rest: "addDigits_rest L (length S) c rd = Some (c', rd')" "length rd' = length L"
    "list_all (\<lambda>d. d \<le> 9) rd'" "c' \<le> 1"
    "magnitude rd' + c' * 10 ^ length L = magnitude L + magnitude S"
    by auto
  let ?rd = "if c' \<noteq> 0 then rd' @ [c'] else rd'"
  let ?x = "\<lparr>digits = ?rd, is_negative = False\<rparr>"
  have a: "addDigits L S = Some (removeLeadingZeros ?x)"
    using both(1) rest(1) by (simp add: addDigits_def Let_def)
  have rd9: "list_all (\<lambda>d. d \<le> 9) ?rd" using rest(3,4) by simp
  have rdne: "?rd \<noteq> []" using rest(2) ne by auto
  have mag: "magnitude ?rd = magnitude L + magnitude S"
    using rest(2,5) by (auto simp: magnitude_snoc)
  have inv: "invariants (removeLeadingZeros ?x)"
    using rdne rd9 by (intro removeLeadingZeros_invariants) simp_all
  have sg: "\<not> is_negative (removeLeadingZeros ?x)" by (simp add: removeLeadingZeros_alt)
  have m: "magnitude (digits (removeLeadingZeros ?x)) = magnitude L + magnitude S"
    using mag by (simp add: removeLeadingZeros_digits magnitude_pop_zeros)
  from a inv sg m show ?thesis by blast
qed

text \<open>The call of \<open>addDigits\<close> in \<open>operator+\<close> and \<open>operator-\<close>, longer vector first.\<close>

lemma addDigits_longer_first:
  assumes a9: "list_all (\<lambda>d. d \<le> 9) (digits a)" and b9: "list_all (\<lambda>d. d \<le> 9) (digits b)"
    and ne: "digits a \<noteq> []" "digits b \<noteq> []"
  shows "\<exists>r. (if length (digits b) \<le> length (digits a)
              then addDigits (digits a) (digits b) else addDigits (digits b) (digits a)) = Some r
           \<and> invariants r \<and> \<not> is_negative r
           \<and> magnitude (digits r) = magnitude (digits a) + magnitude (digits b)"
proof (cases "length (digits b) \<le> length (digits a)")
  case True
  with addDigits_correct [OF a9 b9 True ne(1)] show ?thesis by simp
next
  case False
  then have "length (digits a) \<le> length (digits b)" by simp
  from addDigits_correct [OF b9 a9 this ne(2)] False show ?thesis by (simp add: add.commute)
qed

lemma operator_plus_same_sign:
  assumes a: "invariants a" and b: "invariants b" and s: "is_negative a = is_negative b"
  shows "\<exists>r. operator_plus a b = Some r \<and> invariants r
           \<and> int_of_bigint r = int_of_bigint a + int_of_bigint b"
proof -
  from a b have a9: "list_all (\<lambda>d. d \<le> 9) (digits a)" and b9: "list_all (\<lambda>d. d \<le> 9) (digits b)"
    and ne: "digits a \<noteq> []" "digits b \<noteq> []"
    by (simp_all add: invariants_def)
  from addDigits_longer_first [OF a9 b9 ne]
  obtain r where r: "(if length (digits b) \<le> length (digits a)
              then addDigits (digits a) (digits b) else addDigits (digits b) (digits a)) = Some r"
    "invariants r" "magnitude (digits r) = magnitude (digits a) + magnitude (digits b)"
    by blast
  let ?r = "r\<lparr>is_negative := is_negative a\<rparr>"
  have p: "operator_plus a b = Some ?r" using s r(1) by (simp add: operator_plus_def)
  have pos: "is_negative a \<Longrightarrow> 0 < magnitude (digits a)" using a by (auto simp: invariants_def)
  have inv: "invariants ?r" using r(2,3) pos by (auto simp: invariants_def)
  have v: "int_of_bigint ?r = int_of_bigint a + int_of_bigint b"
    using r(3) s by (simp add: int_of_bigint_def)
  from p inv v show ?thesis by blast
qed

section \<open>The loops of subtraction\<close>

lemma subtractDigits_both_short:
  assumes "length L < length S"
  shows "i \<le> length L \<Longrightarrow> subtractDigits_both L S i borrow rd = None"
proof (induction "length L - i" arbitrary: i borrow rd)
  case 0
  then have "i = length L" by simp
  with assms show ?case by (subst subtractDigits_both.simps) (simp add: vec_at_def)
next
  case (Suc m)
  then have iL: "i < length L" by simp
  with assms have iS: "i < length S" by simp
  have "m = length L - (i + 1)" using Suc.hyps(2) by simp
  from Suc.hyps(1) [OF this] iL
  have ih: "subtractDigits_both L S (i + 1) b' rd' = None" for b' rd' by simp
  show ?case using iL iS ih by (subst subtractDigits_both.simps) (simp add: vec_at_Some Let_def)
qed

lemma subtractDigits_short:
  "length (digits larger) < length (digits smaller) \<Longrightarrow> subtractDigits result larger smaller = None"
  by (simp add: subtractDigits_def subtractDigits_both_short)

lemma int_magnitude_snoc:
  "int (magnitude (rd @ [nat d])) = int (magnitude rd) + d * 10 ^ length rd" if "0 \<le> d"
  using that by (simp add: magnitude_snoc)

lemma subtractDigits_both_correct:
  assumes L9: "list_all (\<lambda>d. d \<le> 9) L" and S9: "list_all (\<lambda>d. d \<le> 9) S"
    and len: "length S \<le> length L"
  shows "i \<le> length S \<Longrightarrow> length rd = i \<Longrightarrow> list_all (\<lambda>d. d \<le> 9) rd \<Longrightarrow>
    borrow = 0 \<or> borrow = 1 \<Longrightarrow>
    int (magnitude rd) = int (magnitude (take i L)) - int (magnitude (take i S)) + borrow * 10 ^ i \<Longrightarrow>
    \<exists>b rd'. subtractDigits_both L S i borrow rd = Some (length S, b, rd') \<and> length rd' = length S
       \<and> list_all (\<lambda>d. d \<le> 9) rd' \<and> (b = 0 \<or> b = 1)
       \<and> int (magnitude rd') = int (magnitude (take (length S) L)) - int (magnitude S) + b * 10 ^ length S"
proof (induction "length S - i" arbitrary: i borrow rd)
  case 0
  then have "i = length S" by simp
  with 0 show ?case by (subst subtractDigits_both.simps) simp
next
  case (Suc m)
  then have iS: "i < length S" by simp
  with len have iL: "i < length L" by simp
  let ?diff = "int (L ! i) - int (S ! i) - borrow"
  have l9: "L ! i \<le> 9" using L9 iL by (rule list_all_nth_le)
  have s9: "S ! i \<le> 9" using S9 iS by (rule list_all_nth_le)
  have m: "m = length S - (i + 1)" using Suc.hyps(2) by simp
  have tL: "int (magnitude (take (i + 1) L)) = int (magnitude (take i L)) + int (L ! i) * 10 ^ i"
    using magnitude_take_Suc [OF iL] by simp
  have tS: "int (magnitude (take (i + 1) S)) = int (magnitude (take i S)) + int (S ! i) * 10 ^ i"
    using magnitude_take_Suc [OF iS] by simp
  show ?case
  proof (cases "?diff < 0")
    case True
    let ?d = "?diff + 10"
    let ?rd1 = "rd @ [nat (?d mod 256)]"
    have d: "0 \<le> ?d" "?d \<le> 9" using True l9 s9 Suc.prems(4) by auto
    then have d256: "?d mod 256 = ?d" by simp
    have unfold: "subtractDigits_both L S i borrow rd = subtractDigits_both L S (i + 1) 1 ?rd1"
      using iS iL True by (subst subtractDigits_both.simps) (simp add: vec_at_Some Let_def)
    have rd1_9: "list_all (\<lambda>d. d \<le> 9) ?rd1" using Suc.prems(3) d by (simp add: d256)
    have rd1_len: "length ?rd1 = i + 1" using Suc.prems(2) by simp
    have "int (magnitude ?rd1) = int (magnitude rd) + ?d * 10 ^ i"
      unfolding d256 using int_magnitude_snoc [OF d(1), of rd] Suc.prems(2) by simp
    then have mag: "int (magnitude ?rd1)
        = int (magnitude (take (i + 1) L)) - int (magnitude (take (i + 1) S)) + 1 * 10 ^ (i + 1)"
      using Suc.prems(5) tL tS by (simp add: algebra_simps)
    from Suc.hyps(1) [OF m _ rd1_len rd1_9 _ mag] iS unfold show ?thesis by simp
  next
    case False
    let ?rd1 = "rd @ [nat (?diff mod 256)]"
    have d: "0 \<le> ?diff" "?diff \<le> 9" using False l9 s9 Suc.prems(4) by auto
    then have d256: "?diff mod 256 = ?diff" by simp
    have unfold: "subtractDigits_both L S i borrow rd = subtractDigits_both L S (i + 1) 0 ?rd1"
      using iS iL False by (subst subtractDigits_both.simps) (simp add: vec_at_Some Let_def)
    have rd1_9: "list_all (\<lambda>d. d \<le> 9) ?rd1" using Suc.prems(3) d by (simp add: d256)
    have rd1_len: "length ?rd1 = i + 1" using Suc.prems(2) by simp
    have "int (magnitude ?rd1) = int (magnitude rd) + ?diff * 10 ^ i"
      unfolding d256 using int_magnitude_snoc [OF d(1), of rd] Suc.prems(2) by simp
    then have mag: "int (magnitude ?rd1)
        = int (magnitude (take (i + 1) L)) - int (magnitude (take (i + 1) S)) + 0 * 10 ^ (i + 1)"
      using Suc.prems(5) tL tS by (simp add: algebra_simps)
    from Suc.hyps(1) [OF m _ rd1_len rd1_9 _ mag] iS unfold show ?thesis by simp
  qed
qed

lemma subtractDigits_rest_correct:
  assumes L9: "list_all (\<lambda>d. d \<le> 9) L"
  shows "i \<le> length L \<Longrightarrow> length rd = i \<Longrightarrow> list_all (\<lambda>d. d \<le> 9) rd \<Longrightarrow>
    borrow = 0 \<or> borrow = 1 \<Longrightarrow>
    int (magnitude rd) = int (magnitude (take i L)) - M + borrow * 10 ^ i \<Longrightarrow>
    \<exists>b rd'. subtractDigits_rest L i borrow rd = Some rd' \<and> length rd' = length L
       \<and> list_all (\<lambda>d. d \<le> 9) rd' \<and> (b = 0 \<or> b = 1)
       \<and> int (magnitude rd') = int (magnitude L) - M + b * 10 ^ length L"
proof (induction "length L - i" arbitrary: i borrow rd)
  case 0
  then have "i = length L" by simp
  with 0 show ?case by (subst subtractDigits_rest.simps) auto
next
  case (Suc m)
  then have iL: "i < length L" by simp
  let ?diff = "int (L ! i) - borrow"
  have l9: "L ! i \<le> 9" using L9 iL by (rule list_all_nth_le)
  have m: "m = length L - (i + 1)" using Suc.hyps(2) by simp
  have tL: "int (magnitude (take (i + 1) L)) = int (magnitude (take i L)) + int (L ! i) * 10 ^ i"
    using magnitude_take_Suc [OF iL] by simp
  show ?case
  proof (cases "?diff < 0")
    case True
    let ?d = "?diff + 10"
    let ?rd1 = "rd @ [nat (?d mod 256)]"
    have d: "0 \<le> ?d" "?d \<le> 9" using True l9 Suc.prems(4) by auto
    then have d256: "?d mod 256 = ?d" by simp
    have unfold: "subtractDigits_rest L i borrow rd = subtractDigits_rest L (i + 1) 1 ?rd1"
      using iL True by (subst subtractDigits_rest.simps) (simp add: vec_at_Some Let_def)
    have rd1_9: "list_all (\<lambda>d. d \<le> 9) ?rd1" using Suc.prems(3) d by (simp add: d256)
    have rd1_len: "length ?rd1 = i + 1" using Suc.prems(2) by simp
    have "int (magnitude ?rd1) = int (magnitude rd) + ?d * 10 ^ i"
      unfolding d256 using int_magnitude_snoc [OF d(1), of rd] Suc.prems(2) by simp
    then have mag: "int (magnitude ?rd1) = int (magnitude (take (i + 1) L)) - M + 1 * 10 ^ (i + 1)"
      using Suc.prems(5) tL by (simp add: algebra_simps)
    from Suc.hyps(1) [OF m _ rd1_len rd1_9 _ mag] iL unfold show ?thesis by simp
  next
    case False
    let ?rd1 = "rd @ [nat (?diff mod 256)]"
    have d: "0 \<le> ?diff" "?diff \<le> 9" using False l9 Suc.prems(4) by auto
    then have d256: "?diff mod 256 = ?diff" by simp
    have unfold: "subtractDigits_rest L i borrow rd = subtractDigits_rest L (i + 1) 0 ?rd1"
      using iL False by (subst subtractDigits_rest.simps) (simp add: vec_at_Some Let_def)
    have rd1_9: "list_all (\<lambda>d. d \<le> 9) ?rd1" using Suc.prems(3) d by (simp add: d256)
    have rd1_len: "length ?rd1 = i + 1" using Suc.prems(2) by simp
    have "int (magnitude ?rd1) = int (magnitude rd) + ?diff * 10 ^ i"
      unfolding d256 using int_magnitude_snoc [OF d(1), of rd] Suc.prems(2) by simp
    then have mag: "int (magnitude ?rd1) = int (magnitude (take (i + 1) L)) - M + 0 * 10 ^ (i + 1)"
      using Suc.prems(5) tL by (simp add: algebra_simps)
    from Suc.hyps(1) [OF m _ rd1_len rd1_9 _ mag] iL unfold show ?thesis by simp
  qed
qed

lemma subtractDigits_correct:
  assumes L9: "list_all (\<lambda>d. d \<le> 9) (digits larger)" and S9: "list_all (\<lambda>d. d \<le> 9) (digits smaller)"
    and len: "length (digits smaller) \<le> length (digits larger)"
    and le: "magnitude (digits smaller) \<le> magnitude (digits larger)"
    and ne: "digits larger \<noteq> []" and res: "digits result = []"
  shows "\<exists>r. subtractDigits result larger smaller = Some r \<and> invariants r
           \<and> magnitude (digits r) = magnitude (digits larger) - magnitude (digits smaller)
           \<and> is_negative r = (is_negative result \<and> magnitude (digits smaller) < magnitude (digits larger))"
proof -
  let ?L = "digits larger" and ?S = "digits smaller"
  from subtractDigits_both_correct [OF L9 S9 len, of 0 "[]" 0]
  obtain b rd where both: "subtractDigits_both ?L ?S 0 0 [] = Some (length ?S, b, rd)"
    "length rd = length ?S" "list_all (\<lambda>d. d \<le> 9) rd" "b = 0 \<or> b = 1"
    "int (magnitude rd) = int (magnitude (take (length ?S) ?L)) - int (magnitude ?S) + b * 10 ^ length ?S"
    by auto
  from subtractDigits_rest_correct [OF L9 len both(2,3,4,5)]
  obtain b' rd' where rest: "subtractDigits_rest ?L (length ?S) b rd = Some rd'"
    "length rd' = length ?L" "list_all (\<lambda>d. d \<le> 9) rd'" "b' = 0 \<or> b' = 1"
    "int (magnitude rd') = int (magnitude ?L) - int (magnitude ?S) + b' * 10 ^ length ?L"
    by auto
  have "magnitude rd' < 10 ^ length rd'" using rest(3) by (rule magnitude_lt_pow)
  then have lt: "int (magnitude rd') < 10 ^ length ?L"
    using rest(2) by (metis of_nat_less_iff of_nat_numeral of_nat_power)
  have b0: "b' = 0"
  proof (rule ccontr)
    assume "b' \<noteq> 0"
    with rest(4) have "b' = 1" by simp
    with rest(5) le have "10 ^ length ?L \<le> int (magnitude rd')" by simp
    with lt show False by simp
  qed
  have mag: "magnitude rd' = magnitude ?L - magnitude ?S"
    using rest(5) b0 le by simp
  let ?x = "result\<lparr>digits := rd'\<rparr>"
  have s: "subtractDigits result larger smaller = Some (removeLeadingZeros ?x)"
    using both(1) rest(1) res by (simp add: subtractDigits_def)
  have xne: "digits ?x \<noteq> []" using rest(2) ne by auto
  have inv: "invariants (removeLeadingZeros ?x)"
    using xne rest(3) by (intro removeLeadingZeros_invariants) simp_all
  have m: "magnitude (digits (removeLeadingZeros ?x)) = magnitude ?L - magnitude ?S"
    using mag by (simp add: removeLeadingZeros_digits magnitude_pop_zeros)
  have sg: "is_negative (removeLeadingZeros ?x) = (is_negative result \<and> magnitude ?S < magnitude ?L)"
    using removeLeadingZeros_sign [OF xne] mag by simp
  from s inv m sg show ?thesis by blast
qed

lemma not_shorter_if_not_smaller:
  assumes "normalized_digits a" "normalized_digits b" "magnitude b \<le> magnitude a"
  shows "length b \<le> length a"
proof (rule ccontr)
  assume "\<not> length b \<le> length a"
  then have "length a < length b" by simp
  from shorter_is_smaller [OF assms(1,2) this] assms(3) show False by simp
qed

lemma operator_minus_nonneg:
  assumes a: "normalized_digits (digits a)" and b: "normalized_digits (digits b)"
    and na: "\<not> is_negative a" and nb: "\<not> is_negative b"
  shows "\<exists>r. operator_minus a b = Some r \<and> invariants r
           \<and> int_of_bigint r = int_of_bigint a - int_of_bigint b"
proof -
  from a b have a9: "list_all (\<lambda>d. d \<le> 9) (digits a)" and b9: "list_all (\<lambda>d. d \<le> 9) (digits b)"
    and ane: "digits a \<noteq> []" and bne: "digits b \<noteq> []"
    by (simp_all add: normalized_digits_def)
  have ge: "operator_ge a b = Some (\<not> magnitude (digits a) < magnitude (digits b))"
    using operator_less_nonneg [OF a b na nb] by (simp add: operator_ge_def)
  show ?thesis
  proof (cases "magnitude (digits a) < magnitude (digits b)")
    case False
    then have le: "magnitude (digits b) \<le> magnitude (digits a)" by simp
    have len: "length (digits b) \<le> length (digits a)" using not_shorter_if_not_smaller [OF a b le] .
    from subtractDigits_correct [OF a9 b9 len le ane, of "\<lparr>digits = [], is_negative = is_negative a\<rparr>"]
    obtain r where r: "subtractDigits \<lparr>digits = [], is_negative = is_negative a\<rparr> a b = Some r"
      "invariants r" "magnitude (digits r) = magnitude (digits a) - magnitude (digits b)"
      "is_negative r = (is_negative a \<and> magnitude (digits b) < magnitude (digits a))"
      by auto
    have m: "operator_minus a b = Some r" using na nb ge False r(1) by (simp add: operator_minus_def)
    have "int_of_bigint r = int_of_bigint a - int_of_bigint b"
      using r(3,4) na nb le by (simp add: int_of_bigint_def)
    with m r(2) show ?thesis by blast
  next
    case True
    then have le: "magnitude (digits a) \<le> magnitude (digits b)" by simp
    have len: "length (digits a) \<le> length (digits b)" using not_shorter_if_not_smaller [OF b a le] .
    from subtractDigits_correct [OF b9 a9 len le bne, of "\<lparr>digits = [], is_negative = \<not> is_negative a\<rparr>"]
    obtain r where r: "subtractDigits \<lparr>digits = [], is_negative = \<not> is_negative a\<rparr> b a = Some r"
      "invariants r" "magnitude (digits r) = magnitude (digits b) - magnitude (digits a)"
      "is_negative r = (\<not> is_negative a \<and> magnitude (digits a) < magnitude (digits b))"
      by auto
    have m: "operator_minus a b = Some r" using na nb ge True r(1) by (simp add: operator_minus_def)
    have "int_of_bigint r = int_of_bigint a - int_of_bigint b"
      using r(3,4) na nb True by (simp add: int_of_bigint_def)
    with m r(2) show ?thesis by blast
  qed
qed

lemma operator_minus_negative_same_length:
  assumes a: "normalized_digits (digits a)" and b: "normalized_digits (digits b)"
    and na: "is_negative a" and nb: "is_negative b"
    and len: "length (digits a) = length (digits b)"
  shows "\<exists>r. operator_minus a b = Some r \<and> invariants r
           \<and> int_of_bigint r = int_of_bigint a - int_of_bigint b"
proof -
  from a b have a9: "list_all (\<lambda>d. d \<le> 9) (digits a)" and b9: "list_all (\<lambda>d. d \<le> 9) (digits b)"
    and ane: "digits a \<noteq> []" and bne: "digits b \<noteq> []"
    by (simp_all add: normalized_digits_def)
  have less: "operator_less a b = Some (magnitude (digits b) < magnitude (digits a))"
    using na nb len unfolding operator_less_normalized [OF a b] by simp
  have le: "operator_le a b = Some (magnitude (digits b) < magnitude (digits a) \<or> operator_eq a b)"
    using less by (simp add: operator_le_def)
  have eq: "operator_eq a b \<Longrightarrow> magnitude (digits a) = magnitude (digits b)"
    by (simp add: operator_eq_def)
  show ?thesis
  proof (cases "magnitude (digits b) < magnitude (digits a) \<or> operator_eq a b")
    case True
    then have mle: "magnitude (digits b) \<le> magnitude (digits a)" using eq by auto
    have l: "length (digits b) \<le> length (digits a)" using len by simp
    from subtractDigits_correct [OF a9 b9 l mle ane, of "\<lparr>digits = [], is_negative = True\<rparr>"]
    obtain r where r: "subtractDigits \<lparr>digits = [], is_negative = True\<rparr> a b = Some r"
      "invariants r" "magnitude (digits r) = magnitude (digits a) - magnitude (digits b)"
      "is_negative r = (magnitude (digits b) < magnitude (digits a))"
      by auto
    have m: "operator_minus a b = Some r" using na nb le True r(1) by (simp add: operator_minus_def)
    have "int_of_bigint r = int_of_bigint a - int_of_bigint b"
      using r(3,4) na nb mle by (auto simp: int_of_bigint_def)
    with m r(2) show ?thesis by blast
  next
    case False
    then have mle: "magnitude (digits a) \<le> magnitude (digits b)" by auto
    have l: "length (digits a) \<le> length (digits b)" using len by simp
    from subtractDigits_correct [OF b9 a9 l mle bne, of "\<lparr>digits = [], is_negative = False\<rparr>"]
    obtain r where r: "subtractDigits \<lparr>digits = [], is_negative = False\<rparr> b a = Some r"
      "invariants r" "magnitude (digits r) = magnitude (digits b) - magnitude (digits a)"
      "is_negative r = False"
      by auto
    have m: "operator_minus a b = Some r" using na nb le False r(1) by (simp add: operator_minus_def)
    have "int_of_bigint r = int_of_bigint a - int_of_bigint b"
      using r(3,4) na nb mle by (auto simp: int_of_bigint_def)
    with m r(2) show ?thesis by blast
  qed
qed

lemma operator_minus_negative_other_length:
  assumes a: "normalized_digits (digits a)" and b: "normalized_digits (digits b)"
    and na: "is_negative a" and nb: "is_negative b"
    and len: "length (digits a) \<noteq> length (digits b)"
  shows "operator_minus a b = None"
proof -
  have less: "operator_less a b = Some (length (digits a) < length (digits b))"
    using na nb len unfolding operator_less_normalized [OF a b] by simp
  have neq: "\<not> operator_eq a b" using len by (auto simp: operator_eq_def)
  have le: "operator_le a b = Some (length (digits a) < length (digits b))"
    using less neq by (simp add: operator_le_def)
  show ?thesis
  proof (cases "length (digits a) < length (digits b)")
    case True
    then show ?thesis using na nb le by (simp add: operator_minus_def subtractDigits_short)
  next
    case False
    with len have "length (digits b) < length (digits a)" by simp
    then show ?thesis using na nb le False by (simp add: operator_minus_def subtractDigits_short)
  qed
qed

lemma operator_minus_other_sign:
  assumes a: "invariants a" and b: "normalized_digits (digits b)"
    and s: "is_negative a \<noteq> is_negative b"
  shows "\<exists>r. operator_minus a b = Some r \<and> invariants r
           \<and> int_of_bigint r = int_of_bigint a - int_of_bigint b"
proof -
  from a b have a9: "list_all (\<lambda>d. d \<le> 9) (digits a)" and b9: "list_all (\<lambda>d. d \<le> 9) (digits b)"
    and ne: "digits a \<noteq> []" "digits b \<noteq> []"
    by (simp_all add: invariants_def normalized_digits_def)
  from addDigits_longer_first [OF a9 b9 ne]
  obtain r where r: "(if length (digits b) \<le> length (digits a)
              then addDigits (digits a) (digits b) else addDigits (digits b) (digits a)) = Some r"
    "invariants r" "magnitude (digits r) = magnitude (digits a) + magnitude (digits b)"
    by blast
  let ?r = "r\<lparr>is_negative := is_negative a\<rparr>"
  have m: "operator_minus a b = Some ?r"
    using s r(1) by (cases "is_negative a") (simp_all add: operator_minus_def)
  have pos: "is_negative a \<Longrightarrow> 0 < magnitude (digits a)" using a by (auto simp: invariants_def)
  have inv: "invariants ?r" using r(2,3) pos by (auto simp: invariants_def)
  have v: "int_of_bigint ?r = int_of_bigint a - int_of_bigint b"
    using r(3) s by (auto simp: int_of_bigint_def)
  from m inv v show ?thesis by blast
qed

section \<open>Comparison, subtraction and addition on values satisfying the invariants\<close>

text \<open>
  On operands satisfying the invariants, \<open>operator<\<close> is the order of the integers
  except between two negative values of different digit counts, where it is the order
  of the digit counts; \<open>operator-\<close> on exactly those operands reads outside the
  shorter vector, and returns the exact difference on all others; \<open>operator+\<close>
  fails exactly for a negative first and a non-negative second operand of different
  digit counts, and returns the exact sum otherwise.
\<close>

lemma operator_neg_value: "int_of_bigint (operator_neg b) = - int_of_bigint b"
  by (simp add: operator_neg_def int_of_bigint_def)

lemma operator_neg_invariants:
  "invariants a \<Longrightarrow> invariants (operator_neg a) = (0 < magnitude (digits a))"
  by (auto simp: invariants_def operator_neg_def)

lemma operator_less_on_invariants:
  assumes a: "invariants a" and b: "invariants b"
  shows "operator_less a b =
     Some (if is_negative a \<and> is_negative b \<and> length (digits a) \<noteq> length (digits b)
           then length (digits a) < length (digits b)
           else int_of_bigint a < int_of_bigint b)"
proof -
  note na = invariants_normalized [OF a] and nb = invariants_normalized [OF b]
  have pa: "is_negative a \<Longrightarrow> 0 < magnitude (digits a)" using a by (auto simp: invariants_def)
  have pb: "is_negative b \<Longrightarrow> 0 < magnitude (digits b)" using b by (auto simp: invariants_def)
  consider (np) "is_negative a" "\<not> is_negative b" | (pn) "\<not> is_negative a" "is_negative b"
    | (pp) "\<not> is_negative a" "\<not> is_negative b" | (nn) "is_negative a" "is_negative b"
    by blast
  then show ?thesis
  proof cases
    case np
    then show ?thesis using pa by (simp add: operator_less_def int_of_bigint_def)
  next
    case pn
    then show ?thesis using pb by (simp add: operator_less_def int_of_bigint_def)
  next
    case pp
    then show ?thesis using operator_less_nonneg [OF na nb] by (simp add: int_of_bigint_def)
  next
    case nn
    then show ?thesis unfolding operator_less_normalized [OF na nb] by (simp add: int_of_bigint_def)
  qed
qed

lemma operator_minus_on_invariants:
  assumes a: "invariants a" and b: "invariants b"
  shows "if is_negative a \<and> is_negative b \<and> length (digits a) \<noteq> length (digits b)
         then operator_minus a b = None
         else \<exists>r. operator_minus a b = Some r \<and> invariants r
                \<and> int_of_bigint r = int_of_bigint a - int_of_bigint b"
proof -
  note na = invariants_normalized [OF a] and nb = invariants_normalized [OF b]
  consider (d) "is_negative a \<noteq> is_negative b"
    | (pp) "\<not> is_negative a" "\<not> is_negative b"
    | (nn) "is_negative a" "is_negative b" "length (digits a) = length (digits b)"
    | (bad) "is_negative a" "is_negative b" "length (digits a) \<noteq> length (digits b)"
    by blast
  then show ?thesis
  proof cases
    case d
    with operator_minus_other_sign [OF a nb] show ?thesis by auto
  next
    case pp
    with operator_minus_nonneg [OF na nb] show ?thesis by simp
  next
    case nn
    with operator_minus_negative_same_length [OF na nb] show ?thesis by simp
  next
    case bad
    with operator_minus_negative_other_length [OF na nb] show ?thesis by simp
  qed
qed

lemma operator_plus_on_invariants:
  assumes a: "invariants a" and b: "invariants b"
  shows "if is_negative a \<and> \<not> is_negative b \<and> length (digits a) \<noteq> length (digits b)
         then operator_plus a b = None
         else \<exists>r. operator_plus a b = Some r \<and> invariants r
                \<and> int_of_bigint r = int_of_bigint a + int_of_bigint b"
proof -
  note na = invariants_normalized [OF a] and nb = invariants_normalized [OF b]
  have nnb: "normalized_digits (digits (operator_neg b))" using nb by (simp add: operator_neg_def)
  have dn: "digits (operator_neg b) = digits b" by (simp add: operator_neg_def)
  have sn: "is_negative (operator_neg b) = (\<not> is_negative b)" by (simp add: operator_neg_def)
  consider (s) "is_negative a = is_negative b"
    | (pn) "\<not> is_negative a" "is_negative b"
    | (np) "is_negative a" "\<not> is_negative b" "length (digits a) = length (digits b)"
    | (bad) "is_negative a" "\<not> is_negative b" "length (digits a) \<noteq> length (digits b)"
    by blast
  then show ?thesis
  proof cases
    case s
    with operator_plus_same_sign [OF a b] show ?thesis by auto
  next
    case pn
    then have p: "operator_plus a b = operator_minus a (operator_neg b)"
      by (simp add: operator_plus_def)
    from operator_minus_nonneg [OF na nnb] pn sn show ?thesis
      unfolding p by (simp add: operator_neg_value)
  next
    case np
    then have p: "operator_plus a b = operator_minus a (operator_neg b)"
      by (simp add: operator_plus_def)
    from operator_minus_negative_same_length [OF na nnb] np sn dn show ?thesis
      unfolding p by (simp add: operator_neg_value)
  next
    case bad
    then have p: "operator_plus a b = operator_minus a (operator_neg b)"
      by (simp add: operator_plus_def)
    from operator_minus_negative_other_length [OF na nnb] bad sn dn show ?thesis
      unfolding p by simp
  qed
qed

section \<open>The constructor from a 64-bit integer\<close>

text \<open>
  Away from the least 64-bit integer the digits are the decimal digits of the absolute
  value, normalized; the sign flag is set for a negative argument and is the
  unassigned one otherwise.
\<close>

lemma int64_digits_correct:
  "0 \<le> v \<Longrightarrow> list_all (\<lambda>d. d \<le> 9) ds \<Longrightarrow>
   magnitude (int64_digits v ds) = magnitude ds + nat v * 10 ^ length ds
   \<and> list_all (\<lambda>d. d \<le> 9) (int64_digits v ds)
   \<and> (if 0 < v then int64_digits v ds \<noteq> [] \<and> 0 < last (int64_digits v ds)
       else int64_digits v ds = ds)"
proof (induction v ds rule: int64_digits.induct)
  case (1 v ds)
  show ?case
  proof (cases "0 < v")
    case False
    then show ?thesis using "1.prems" by (subst (1 2 3 4 5) int64_digits.simps) simp
  next
    case True
    let ?d = "nat ((v smod 10) mod 256)"
    let ?ds1 = "ds @ [?d]"
    have sd: "v sdiv 10 = v div 10" and sm: "v smod 10 = v mod 10"
      using True by (simp_all add: signed_divide_int_def signed_modulo_int_def)
    have d: "?d = nat (v mod 10)" by (simp add: sm)
    have d9: "?d \<le> 9" unfolding d by simp
    have unfold: "int64_digits v ds = int64_digits (v sdiv 10) ?ds1"
      using True by (subst int64_digits.simps) simp
    have ds1_9: "list_all (\<lambda>d. d \<le> 9) ?ds1" using "1.prems"(2) d9 by simp
    have q0: "0 \<le> v sdiv 10" using True by (simp add: sd)
    note ih = "1.IH" [OF True q0 ds1_9]
    have nv: "nat v = nat (v div 10) * 10 + nat (v mod 10)"
      using True by (simp add: nat_div_distrib nat_mod_distrib)
    have "magnitude ?ds1 + nat (v sdiv 10) * 10 ^ length ?ds1
          = magnitude ds + (nat (v div 10) * 10 + nat (v mod 10)) * 10 ^ length ds"
      unfolding d sd using magnitude_push [of ds "nat (v mod 10)" "nat (v div 10)"] by simp
    then have mag: "magnitude ?ds1 + nat (v sdiv 10) * 10 ^ length ?ds1 = magnitude ds + nat v * 10 ^ length ds"
      unfolding nv [symmetric] .
    have lastpos: "int64_digits (v sdiv 10) ?ds1 \<noteq> [] \<and> 0 < last (int64_digits (v sdiv 10) ?ds1)"
    proof (cases "0 < v sdiv 10")
      case True
      with ih show ?thesis by simp
    next
      case False
      then have "v div 10 = 0" using q0 sd by simp
      then have "v < 10" using True by simp
      then have "0 < ?d" unfolding d using True by simp
      moreover from False ih have "int64_digits (v sdiv 10) ?ds1 = ?ds1" by simp
      ultimately show ?thesis by simp
    qed
    from ih mag lastpos True show ?thesis unfolding unfold by simp
  qed
qed

lemma sint_min64: "sint (- 9223372036854775808 :: 64 word) = - 9223372036854775808"
  by simp

lemma sint_neg64:
  assumes "n \<noteq> (- 9223372036854775808 :: 64 word)"
  shows "sint (- n) = - sint n"
proof -
  have "sint n \<noteq> - 9223372036854775808"
    using assms sint_min64 signed_word_eqI [of n "- 9223372036854775808", where ?'a = int] by auto
  moreover have "- 9223372036854775808 \<le> sint n" using sint_ge [of n] by simp
  moreover have "sint n < 9223372036854775808" using sint_lt [of n] by simp
  ultimately have "- (2 ^ 63) \<le> - sint n" "- sint n < 2 ^ 63" by simp_all
  then have "signed_take_bit 63 (- sint n) = - sint n"
    by (simp add: signed_take_bit_int_eq_self)
  then show ?thesis by (simp add: sint_word_minus)
qed

lemma bigint_of_int64_correct:
  assumes "n \<noteq> (- 9223372036854775808 :: 64 word)"
  shows "normalized_digits (digits (bigint_of_int64 uninit n))
         \<and> int (magnitude (digits (bigint_of_int64 uninit n))) = \<bar>sint n\<bar>
         \<and> is_negative (bigint_of_int64 uninit n) = (if n <s 0 then True else uninit)"
proof -
  consider (neg) "sint n < 0" | (zero) "n = 0" | (pos) "0 < sint n"
    by (metis linorder_neqE_linordered_idom signed_eq_0_iff)
  then show ?thesis
  proof cases
    case neg
    then have v: "0 < sint (- n)" using sint_neg64 [OF assms] by simp
    then have nz: "- n \<noteq> 0" by auto
    from int64_digits_correct [of "sint (- n)" "[]"] v
    show ?thesis using neg nz sint_neg64 [OF assms]
      by (auto simp: bigint_of_int64_def Let_def word_sless_alt normalized_digits_def)
  next
    case zero
    have "int64_digits 0 [0] = [0]" by (subst int64_digits.simps) simp
    with zero show ?thesis
      by (simp add: bigint_of_int64_def Let_def word_sless_alt normalized_digits_def)
  next
    case pos
    then have nz: "n \<noteq> 0" by auto
    from int64_digits_correct [of "sint n" "[]"] pos
    show ?thesis using pos nz
      by (auto simp: bigint_of_int64_def Let_def word_sless_alt normalized_digits_def)
  qed
qed

lemma bigint_of_int64_initialized:
  assumes "n \<noteq> (- 9223372036854775808 :: 64 word)"
  shows "invariants (bigint_of_int64 False n) \<and> int_of_bigint (bigint_of_int64 False n) = sint n"
  using bigint_of_int64_correct [OF assms, of False]
  by (auto simp: invariants_def normalized_digits_def int_of_bigint_def word_sless_alt)

section \<open>The constructor from text on every string\<close>

lemma string_digits_bad_char:
  "i \<le> length s \<Longrightarrow> start \<le> k \<Longrightarrow> k < i \<Longrightarrow> \<not> decimal_digit (s ! k) \<Longrightarrow>
   string_digits s start i ds = Inl InvalidFormat"
proof (induction i arbitrary: ds)
  case 0
  then show ?case by simp
next
  case (Suc i)
  then have st: "start < Suc i" by simp
  show ?case
  proof (cases "isdigit (s ! i)")
    case False
    with st show ?thesis by simp
  next
    case True
    with Suc.prems have "k \<noteq> i" by (auto simp: isdigit_decimal_digit)
    with Suc.prems have "k < i" by simp
    with Suc.IH [of "ds @ [digit_of_char (s ! i)]"] Suc.prems
    have "string_digits s start i (ds @ [digit_of_char (s ! i)]) = Inl InvalidFormat" by simp
    with st True show ?thesis by simp
  qed
qed

lemma string_digits_not_all:
  assumes "\<not> list_all decimal_digit (drop start s)"
  shows "string_digits s start (length s) [] = Inl InvalidFormat"
proof -
  from assms obtain j where j: "j < length s - start" "\<not> decimal_digit (drop start s ! j)"
    by (auto simp: list_all_length)
  then have "\<not> decimal_digit (s ! (start + j))" by simp
  moreover have "start + j < length s" using j(1) by simp
  ultimately show ?thesis
    using string_digits_bad_char [of "length s" s start "start + j" "[]"] by simp
qed

text \<open>The result of the constructor from text, on every string.\<close>

lemma bigint_of_string_cases:
  "bigint_of_string s =
     (if s = [] \<or> \<not> list_all decimal_digit (if hd s = CHR ''-'' then tl s else s)
      then Inl InvalidFormat
      else Inr (removeLeadingZeros
                 \<lparr>digits = map digit_of_char (rev (if hd s = CHR ''-'' then tl s else s)),
                  is_negative = (hd s = CHR ''-'')\<rparr>))"
proof (cases s)
  case Nil
  then show ?thesis by (simp add: bigint_of_string_def)
next
  case (Cons c cs)
  show ?thesis
  proof (cases "c = CHR ''-''")
    case True
    have d: "drop 1 s = cs" using Cons by simp
    show ?thesis
    proof (cases "list_all decimal_digit cs")
      case all: True
      have "string_digits s 1 (length s) [] = Inr (map digit_of_char (rev cs))"
        using string_digits_whole [of 1 s] all Cons by simp
      with Cons True all show ?thesis by (simp add: bigint_of_string_def)
    next
      case False
      have "string_digits s 1 (length s) [] = Inl InvalidFormat"
        using string_digits_not_all [of 1 s] False d by simp
      with Cons True False show ?thesis by (simp add: bigint_of_string_def)
    qed
  next
    case False
    show ?thesis
    proof (cases "list_all decimal_digit s")
      case all: True
      have "string_digits s 0 (length s) [] = Inr (map digit_of_char (rev s))"
        using string_digits_whole [of 0 s] all by simp
      with Cons False all show ?thesis by (simp add: bigint_of_string_def)
    next
      case nall: False
      have "string_digits s 0 (length s) [] = Inl InvalidFormat"
        using string_digits_not_all [of 0 s] nall by simp
      with Cons False nall show ?thesis by (simp add: bigint_of_string_def)
    qed
  qed
qed

lemma bigint_of_string_normalized_iff:
  assumes "bigint_of_string s = Inr v"
  shows "invariants v = (s \<noteq> ''-'')"
proof -
  let ?body = "if hd s = CHR ''-'' then tl s else s"
  from assms have ne: "s \<noteq> []" and all: "list_all decimal_digit ?body"
    and v: "v = removeLeadingZeros \<lparr>digits = map digit_of_char (rev ?body), is_negative = (hd s = CHR ''-'')\<rparr>"
    unfolding bigint_of_string_cases [of s] by (auto split: if_splits)
  show ?thesis
  proof (cases "?body = []")
    case True
    with ne have s: "s = ''-''" by (cases s) (auto split: if_splits)
    have "digits v = []" unfolding v using True by (simp add: removeLeadingZeros_digits pop_zeros_Nil)
    with s show ?thesis by (simp add: invariants_def)
  next
    case False
    then have s: "s \<noteq> ''-''" by auto
    have "invariants v" unfolding v
      using False all by (intro removeLeadingZeros_invariants) (simp_all add: digits_of_chars_le9)
    with s show ?thesis by simp
  qed
qed

section \<open>Negation\<close>

text \<open>
  C10. Negating twice gives back the same value, for every value whatsoever: the
  record is the same, and \<open>operator==\<close> holds between the two. This covers zero,
  whose negation has the digits of zero and a set sign flag.
\<close>

theorem neg_neg_same:
  "operator_neg (operator_neg a) = a \<and> operator_eq (operator_neg (operator_neg a)) a
   \<and> digits (operator_neg a) = digits a \<and> is_negative (operator_neg a) = (\<not> is_negative a)"
  by (simp add: operator_neg_def operator_eq_def)

section \<open>Comparison of negative values\<close>

text \<open>
  C2. Among values of one sign whose digit counts differ, \<open>operator<\<close> answers by
  digit count alone, before it looks at the sign: \<open>-5 < -100\<close> is reported true,
  although \<open>-5\<close> has fewer digits, both operands are negative and normalized, and
  \<open>-5\<close> is the larger integer.
\<close>

theorem less_negative_fewer_digits:
  "bigint_of_string ''-5'' = Inr \<lparr>digits = [5], is_negative = True\<rparr>
   \<and> bigint_of_string ''-100'' = Inr \<lparr>digits = [0, 0, 1], is_negative = True\<rparr>
   \<and> invariants \<lparr>digits = [5], is_negative = True\<rparr>
   \<and> invariants \<lparr>digits = [0, 0, 1], is_negative = True\<rparr>
   \<and> operator_less \<lparr>digits = [5], is_negative = True\<rparr>
                      \<lparr>digits = [0, 0, 1], is_negative = True\<rparr> = Some True
   \<and> \<not> int_of_bigint \<lparr>digits = [5], is_negative = True\<rparr>
         < int_of_bigint \<lparr>digits = [0, 0, 1], is_negative = True\<rparr>"
  by code_simp

section \<open>Subtraction and addition outside the digit vector\<close>

text \<open>
  C1. \<open>(-5) - (-100)\<close>: both operands are negative and \<open>operator<=\<close> reports
  \<open>-5 <= -100\<close>, so \<open>subtractDigits\<close> gets the one-digit operand as \<open>larger\<close>
  and reads its index 1, outside the vector.
\<close>

theorem minus_reads_out_of_range:
  "invariants \<lparr>digits = [5], is_negative = True\<rparr>
   \<and> invariants \<lparr>digits = [0, 0, 1], is_negative = True\<rparr>
   \<and> operator_le \<lparr>digits = [5], is_negative = True\<rparr>
                    \<lparr>digits = [0, 0, 1], is_negative = True\<rparr> = Some True
   \<and> vec_at [5] 1 = None
   \<and> operator_minus \<lparr>digits = [5], is_negative = True\<rparr>
                       \<lparr>digits = [0, 0, 1], is_negative = True\<rparr> = None"
  by code_simp

text \<open>
  C3. \<open>(-100) - (-5)\<close>, whose difference is \<open>-95\<close>: \<open>operator<=\<close> reports false,
  the operands are swapped, and \<open>subtractDigits\<close> again indexes the one-digit vector
  over the three indices of the other; no value is produced.
\<close>

theorem minus_negative_operands_no_difference:
  "invariants \<lparr>digits = [0, 0, 1], is_negative = True\<rparr>
   \<and> invariants \<lparr>digits = [5], is_negative = True\<rparr>
   \<and> int_of_bigint \<lparr>digits = [0, 0, 1], is_negative = True\<rparr>
       - int_of_bigint \<lparr>digits = [5], is_negative = True\<rparr> = - 95
   \<and> operator_minus \<lparr>digits = [0, 0, 1], is_negative = True\<rparr>
                       \<lparr>digits = [5], is_negative = True\<rparr> = None"
  by code_simp

text \<open>
  C4. \<open>(-100) + 5\<close>, whose sum is \<open>-95\<close>: the signs differ, the sum is computed as
  \<open>(-100) - (-5)\<close>, and no value is produced. The same happens for \<open>(-100) + 0\<close>.
\<close>

theorem plus_mixed_signs_no_sum:
  "invariants \<lparr>digits = [0, 0, 1], is_negative = True\<rparr>
   \<and> invariants \<lparr>digits = [5], is_negative = False\<rparr>
   \<and> int_of_bigint \<lparr>digits = [0, 0, 1], is_negative = True\<rparr>
       + int_of_bigint \<lparr>digits = [5], is_negative = False\<rparr> = - 95
   \<and> operator_plus \<lparr>digits = [0, 0, 1], is_negative = True\<rparr>
                      \<lparr>digits = [5], is_negative = False\<rparr> = None
   \<and> operator_plus \<lparr>digits = [0, 0, 1], is_negative = True\<rparr> bigint_default = None"
  by code_simp

section \<open>Construction from text: the sign alone\<close>

text \<open>
  C6. The string \<open>-\<close> is not empty and has no character after the sign, so the
  loop body never runs and nothing is thrown: the constructor returns a value with
  no digits and the sign flag set, which breaks the first invariant.
\<close>

theorem string_sign_only_accepted:
  "bigint_of_string ''-'' = Inr \<lparr>digits = [], is_negative = True\<rparr>
   \<and> \<not> invariants \<lparr>digits = [], is_negative = True\<rparr>"
  by code_simp

section \<open>Invariants after negation\<close>

text \<open>
  C7. Negating the default value, zero, sets the flag on the digits of zero: the
  operand satisfies the invariants and the result does not.
\<close>

theorem neg_zero_breaks_invariants:
  "invariants bigint_default
   \<and> operator_neg bigint_default = \<lparr>digits = [0], is_negative = True\<rparr>
   \<and> \<not> invariants (operator_neg bigint_default)"
  by code_simp

section \<open>Construction from the least 64-bit integer\<close>

text \<open>
  C8. At \<open>-2^63\<close> the negation gives \<open>-2^63\<close> again, the value is neither zero nor
  positive, and the constructor leaves the digit vector empty.
\<close>

theorem int64_min_no_digits:
  "- (- 9223372036854775808 :: 64 word) = - 9223372036854775808
   \<and> bigint_of_int64 uninit (- 9223372036854775808) = \<lparr>digits = [], is_negative = True\<rparr>
   \<and> \<not> invariants (bigint_of_int64 uninit (- 9223372036854775808))"
  by (simp add: bigint_of_int64_def int64_digits.simps word_sless_alt invariants_def)

section \<open>Round trip through text\<close>

text \<open>
  C9. For every string of the grammar the constructor succeeds, the value satisfies
  the invariants, and printing it gives the canonical form of the string; the output
  begins with \<open>-\<close> exactly when the value is negative.
\<close>

theorem parse_then_print_canonical:
  assumes "matches_grammar s"
  shows "\<exists>v. bigint_of_string s = Inr v \<and> invariants v \<and> operator_out v = canonical s
             \<and> is_negative v = (hd (operator_out v) = CHR ''-'')"
proof (cases s)
  case Nil
  with assms show ?thesis by (simp add: matches_grammar_def)
next
  case (Cons c cs)
  show ?thesis
  proof (cases "c = CHR ''-''")
    case True
    with assms Cons have ne: "cs \<noteq> []" and dd: "list_all decimal_digit cs"
      by (simp_all add: matches_grammar_def)
    have sd: "string_digits s 1 (length s) [] = Inr (map digit_of_char (rev cs))"
      using string_digits_whole [of 1 s] dd Cons by simp
    obtain v where v: "bigint_of_string s = Inr v" "invariants v"
      "is_negative v = (strip_leading_zeros cs \<noteq> ''0'')"
      "operator_out v = (if strip_leading_zeros cs \<noteq> ''0'' then ''-'' else []) @ strip_leading_zeros cs"
      using parse_digit_string [OF ne dd, of s 1 True] sd Cons True by auto
    have hd0: "strip_leading_zeros cs = ''0'' \<Longrightarrow> hd (strip_leading_zeros cs) \<noteq> CHR ''-''"
      by simp
    have "operator_out v = canonical s"
      using v(4) Cons True by (simp add: canonical_def Let_def)
    moreover have "is_negative v = (hd (operator_out v) = CHR ''-'')"
      using v(3,4) hd0 by auto
    ultimately show ?thesis using v(1,2) by blast
  next
    case False
    with assms Cons have dd: "list_all decimal_digit s" and ne: "s \<noteq> []"
      by (simp_all add: matches_grammar_def)
    have sd: "string_digits s 0 (length s) [] = Inr (map digit_of_char (rev s))"
      using string_digits_whole [of 0 s] dd by simp
    obtain v where v: "bigint_of_string s = Inr v" "invariants v"
      "is_negative v = False" "operator_out v = strip_leading_zeros s"
      using parse_digit_string [OF ne dd, of s 0 False] sd Cons False by auto
    have nm: "list_all decimal_digit t \<Longrightarrow> t \<noteq> [] \<Longrightarrow> hd (strip_leading_zeros t) \<noteq> CHR ''-''" for t
      by (induction t rule: strip_leading_zeros.induct) (auto simp: decimal_digit_def)
    have "operator_out v = canonical s"
      using v(4) Cons False by (simp add: canonical_def)
    moreover have "is_negative v = (hd (operator_out v) = CHR ''-'')"
      using v(3,4) nm [OF dd ne] by simp
    ultimately show ?thesis using v(1,2) by blast
  qed
qed

theorem parse_then_print_canonical_witness:
  "matches_grammar ''-007'' \<and> canonical ''-007'' = ''-7''
   \<and> (\<exists>v. bigint_of_string ''-007'' = Inr v \<and> invariants v \<and> operator_out v = ''-7''
         \<and> is_negative v = (hd (operator_out v) = CHR ''-''))"
proof -
  have m: "matches_grammar ''-007''" by code_simp
  have c: "canonical ''-007'' = ''-7''" by code_simp
  from parse_then_print_canonical [OF m] c m show ?thesis by simp
qed

section \<open>Multiplication\<close>

text \<open>
  C5. For operands satisfying the invariants, \<open>operator*\<close> returns a value: it
  satisfies the invariants, it is the exact integer product, its magnitude is the
  product of the magnitudes in at most as many digits as both operands have together,
  and it is negative exactly when one operand is negative and the product is not zero.
\<close>

theorem times_exact_product:
  assumes "invariants a" and "invariants b"
  shows "\<exists>r. operator_times a b = Some r \<and> invariants r
           \<and> int_of_bigint r = int_of_bigint a * int_of_bigint b
           \<and> magnitude (digits r) = magnitude (digits a) * magnitude (digits b)
           \<and> is_negative r = (is_negative a \<noteq> is_negative b \<and> int_of_bigint a * int_of_bigint b \<noteq> 0)
           \<and> length (digits r) \<le> length (digits a) + length (digits b)"
proof -
  from assms have da: "list_all (\<lambda>d. d \<le> 9) (digits a)" and db: "list_all (\<lambda>d. d \<le> 9) (digits b)"
    and ne: "digits a \<noteq> []"
    by (simp_all add: invariants_def)
  from operator_times_correct [OF da db ne]
  obtain r where r: "operator_times a b = Some r" "invariants r"
    "magnitude (digits r) = magnitude (digits a) * magnitude (digits b)"
    "is_negative r = (is_negative a \<noteq> is_negative b \<and> 0 < magnitude (digits a) * magnitude (digits b))"
    "length (digits r) \<le> length (digits a) + length (digits b)"
    by blast
  have v: "int_of_bigint r = int_of_bigint a * int_of_bigint b"
    using r(3,4) by (auto simp: int_of_bigint_def)
  have z: "(int_of_bigint a * int_of_bigint b \<noteq> 0) = (0 < magnitude (digits a) * magnitude (digits b))"
    by (auto simp: int_of_bigint_def)
  from r v z show ?thesis by auto
qed

theorem times_exact_product_witness:
  "invariants \<lparr>digits = [2, 1], is_negative = True\<rparr>
   \<and> invariants \<lparr>digits = [9], is_negative = False\<rparr>
   \<and> operator_times \<lparr>digits = [2, 1], is_negative = True\<rparr> \<lparr>digits = [9], is_negative = False\<rparr>
       = Some \<lparr>digits = [8, 0, 1], is_negative = True\<rparr>
   \<and> (\<exists>r. operator_times \<lparr>digits = [2, 1], is_negative = True\<rparr> \<lparr>digits = [9], is_negative = False\<rparr> = Some r
         \<and> invariants r \<and> int_of_bigint r = - 108)"
proof -
  have a: "invariants \<lparr>digits = [2, 1], is_negative = True\<rparr>" by code_simp
  have b: "invariants \<lparr>digits = [9], is_negative = False\<rparr>" by code_simp
  have e: "operator_times \<lparr>digits = [2, 1], is_negative = True\<rparr> \<lparr>digits = [9], is_negative = False\<rparr>
       = Some \<lparr>digits = [8, 0, 1], is_negative = True\<rparr>" by code_simp
  have v: "int_of_bigint \<lparr>digits = [2, 1], is_negative = True\<rparr> * int_of_bigint \<lparr>digits = [9], is_negative = False\<rparr> = - 108"
    by (simp add: int_of_bigint_def)
  from times_exact_product [OF a b] v a b e show ?thesis by auto
qed

end
